theory Spec2Isabelle
  imports Main "HOL-Library.Sublist" "HOL-Library.Multiset"
begin

section \<open>Loop invariant code motion: the IR the pass sees\<close>

text \<open>
  The pass of \<^verbatim>\<open>mlir/lib/Transforms/LoopInvariantCodeMotion.cpp\<close> works on
  operations, values, blocks and regions through a handful of queries.  The model keeps
  exactly what those queries read.

  An \<^verbatim>\<open>Operation *\<close> is compared and stored by address (\<^verbatim>\<open>willBeMovedSet\<close> is a
  \<^verbatim>\<open>SmallPtrSet<Operation *, 8>\<close>); the address is the field \<open>opId\<close>.  A value is
  either a result of an operation or a block argument; \<^verbatim>\<open>Value::getDefiningOp()\<close>
  gives the address of the defining operation for the former and null for the latter.
\<close>

datatype Value = OpResult nat nat | BlockArgument nat nat

fun getDefiningOp :: "Value \<Rightarrow> nat option" where
  "getDefiningOp (OpResult definingOp resultNumber) = Some definingOp"
| "getDefiningOp (BlockArgument owner argNumber) = None"

text \<open>
  \<^verbatim>\<open>dyn_cast<MemoryEffectOpInterface>(op)\<close> either fails (\<open>None\<close>) or gives an
  interface whose only query used here is \<^verbatim>\<open>hasNoEffect()\<close>.
\<close>

datatype MemoryEffectOpInterface = MemoryEffectOpInterface (hasNoEffect: bool)

text \<open>
  An operation: its address, its operands, the result of the cast to the memory effect
  interface, the answer of \<^verbatim>\<open>op->hasNoSideEffect()\<close>, the presence of the trait
  \<^verbatim>\<open>OpTrait::HasRecursiveSideEffects\<close>, and its regions.  A region is the list of its
  blocks.  A block has an address, which is what a block argument refers to, and the list
  of its operations, the last one being the terminator.
\<close>

datatype Operation = Op
  (opId: nat)
  (getOperands: "Value list")
  (memInterface: "MemoryEffectOpInterface option")
  (hasNoSideEffect: bool)
  (hasRecursiveSideEffects: bool)
  (getRegions: "Block list list")
and Block = Block
  (blockId: nat)
  (getOperations: "Operation list")

type_synonym Region = "Block list"

text \<open>
  \<^verbatim>\<open>Block::without_terminator()\<close> is the range from \<^verbatim>\<open>begin()\<close> to
  \<^verbatim>\<open>std::prev(end())\<close>: every operation of the block but the last.  A block of
  verified IR ends with its terminator and is never empty.
\<close>

definition without_terminator :: "Block \<Rightarrow> Operation list" where
  "without_terminator block = butlast (getOperations block)"

datatype LogicalResult = success | failure

fun failed :: "LogicalResult \<Rightarrow> bool" where
  "failed failure = True"
| "failed success = False"

section \<open>The hoistability analyzer\<close>

text \<open>
  \<^verbatim>\<open>canBeHoisted\<close>, lines 40 to 71.  The three nested loops over regions, blocks and
  operations return false at the first inner operation that fails and true when none
  does, which is \<open>list_all\<close> at each level.
\<close>

function canBeHoisted :: "Operation \<Rightarrow> (Value \<Rightarrow> bool) \<Rightarrow> bool" where
  "canBeHoisted op definedOutside =
     (if \<not> list_all definedOutside (getOperands op) then False
      else if (case memInterface op of
                 Some iface \<Rightarrow> \<not> hasNoEffect iface
               | None \<Rightarrow> \<not> hasNoSideEffect op \<and> \<not> hasRecursiveSideEffects op) then False
      else if \<not> hasRecursiveSideEffects op then True
      else list_all (\<lambda>region.
             list_all (\<lambda>block.
               list_all (\<lambda>innerOp. canBeHoisted innerOp definedOutside)
                 (without_terminator block))
               region)
             (getRegions op))"
  by pat_completeness auto

termination canBeHoisted
proof (relation "measure (\<lambda>(op, definedOutside). size op)")
  show "wf (measure (\<lambda>(op, definedOutside). size op))" by simp
next
  fix op :: Operation and definedOutside :: "Value \<Rightarrow> bool"
    and region :: Region and block :: Block and innerOp :: Operation
  assume region: "region \<in> set (getRegions op)" and block: "block \<in> set region"
    and inner: "innerOp \<in> set (without_terminator block)"
  from inner have "innerOp \<in> set (getOperations block)"
    by (simp add: without_terminator_def in_set_butlastD)
  then have "size innerOp \<le> size_list size (getOperations block)"
    by (simp add: size_list_estimation')
  then have a: "size innerOp \<le> size block"
    by (cases block) simp
  have b: "size block \<le> size_list size region"
    using block by (simp add: size_list_estimation')
  have c: "size_list size region \<le> size_list (size_list size) (getRegions op)"
    using region by (simp add: size_list_estimation')
  have d: "size_list (size_list size) (getRegions op) < size op"
    by (cases op) simp
  from a b c d have "size innerOp < size op" by linarith
  then show "((innerOp, definedOutside), (op, definedOutside))
                \<in> measure (\<lambda>(op, definedOutside). size op)"
    by simp
qed

text \<open>
  The defining equation unfolds under its own \<open>\<lambda>\<close>, so it is not a rewrite rule;
  proofs unfold it one step at a time.
\<close>

declare canBeHoisted.simps [simp del]

section \<open>The loop interface\<close>

text \<open>
  \<^verbatim>\<open>LoopLikeOpInterface\<close> is declared outside this file; the pass uses three of its
  methods.  They are taken as parameters: a loop-like operation is a record of the three
  methods over the state \<open>'s\<close> of the IR.  \<^verbatim>\<open>moveOutOfLoop\<close> is the only one that
  changes the IR, so it returns the new state next to its \<^verbatim>\<open>LogicalResult\<close>.
\<close>

record 's LoopLikeOpInterface =
  getLoopBody :: "'s \<Rightarrow> Region"
  isDefinedOutsideOfLoop :: "'s \<Rightarrow> Value \<Rightarrow> bool"
  moveOutOfLoop :: "Operation list \<Rightarrow> 's \<Rightarrow> LogicalResult \<times> 's"

section \<open>The loop body scanner and mover\<close>

text \<open>
  The lambda \<^verbatim>\<open>isDefinedOutsideOfBody\<close>, lines 82 to 86, reads the current
  \<^verbatim>\<open>willBeMovedSet\<close>, which it captures by reference.
\<close>

definition isDefinedOutsideOfBody ::
  "'s LoopLikeOpInterface \<Rightarrow> 's \<Rightarrow> nat set \<Rightarrow> Value \<Rightarrow> bool" where
  "isDefinedOutsideOfBody looplike s willBeMovedSet v =
     ((case getDefiningOp v of
         None \<Rightarrow> False
       | Some definingOp \<Rightarrow> definingOp \<in> willBeMovedSet)
      \<or> isDefinedOutsideOfLoop looplike s v)"

text \<open>
  The body of the inner loop, lines 93 to 96, on the pair
  \<open>(opsToMove, willBeMovedSet)\<close>; then the loop over the operations of one block and
  the loop over the blocks of the loop body, lines 91 and 92.
\<close>

fun scanOp ::
  "'s LoopLikeOpInterface \<Rightarrow> 's \<Rightarrow> Operation list \<times> nat set \<Rightarrow> Operation
     \<Rightarrow> Operation list \<times> nat set" where
  "scanOp looplike s (opsToMove, willBeMovedSet) op =
     (if canBeHoisted op (isDefinedOutsideOfBody looplike s willBeMovedSet)
      then (opsToMove @ [op], insert (opId op) willBeMovedSet)
      else (opsToMove, willBeMovedSet))"

definition scanBlock ::
  "'s LoopLikeOpInterface \<Rightarrow> 's \<Rightarrow> Operation list \<times> nat set \<Rightarrow> Block
     \<Rightarrow> Operation list \<times> nat set" where
  "scanBlock looplike s st block = foldl (scanOp looplike s) st (without_terminator block)"

definition scanLoopBody ::
  "'s LoopLikeOpInterface \<Rightarrow> 's \<Rightarrow> Region \<Rightarrow> Operation list \<times> nat set" where
  "scanLoopBody looplike s loopBody = foldl (scanBlock looplike s) ([], {}) loopBody"

text \<open>
  \<^verbatim>\<open>moveLoopInvariantCode\<close>, lines 73 to 105.  The debug print of line 103 has no
  effect on the IR.
\<close>

definition moveLoopInvariantCode ::
  "'s LoopLikeOpInterface \<Rightarrow> 's \<Rightarrow> LogicalResult \<times> 's" where
  "moveLoopInvariantCode looplike s =
     (let loopBody = getLoopBody looplike s;
          (opsToMove, willBeMovedSet) = scanLoopBody looplike s loopBody;
          result = moveOutOfLoop looplike opsToMove s
      in result)"

text \<open>
  \<^verbatim>\<open>runOnOperation\<close>, lines 109 to 118.  The walk that finds the loop-like operations
  is not part of this file; the loops come in the order in which the walk calls the
  callback.  The second component is true once \<^verbatim>\<open>signalPassFailure()\<close> was called.
\<close>

fun runOnOperation :: "'s LoopLikeOpInterface list \<Rightarrow> 's \<times> bool \<Rightarrow> 's \<times> bool" where
  "runOnOperation [] st = st"
| "runOnOperation (loopLike # loops) (s, passFailed) =
     (case moveLoopInvariantCode loopLike s of
        (result, s') \<Rightarrow> runOnOperation loops (s', passFailed \<or> failed result))"

section \<open>Derived notions used in the statements\<close>

text \<open>
  The operations the three loops of lines 63 to 65 range over: the non-terminator
  operations of every block of every region of \<open>op\<close>, in order.
\<close>

definition innerOps :: "Operation \<Rightarrow> Operation list" where
  "innerOps op = concat (map (\<lambda>region. concat (map without_terminator region)) (getRegions op))"

text \<open>The side-effect test of lines 48 to 54, read positively: true when it does not reject.\<close>

definition sideEffectTest :: "Operation \<Rightarrow> bool" where
  "sideEffectTest op =
     (case memInterface op of
        Some iface \<Rightarrow> hasNoEffect iface
      | None \<Rightarrow> hasNoSideEffect op \<or> hasRecursiveSideEffects op)"

text \<open>
  The operations the two loops of lines 91 and 92 range over, in scan order: the
  non-terminator operations of the blocks of the loop body.
\<close>

definition scanned :: "Region \<Rightarrow> Operation list" where
  "scanned loopBody = concat (map without_terminator loopBody)"

text \<open>
  The scan as a recursion on the list of scanned operations, with the set
  \<^verbatim>\<open>willBeMovedSet\<close> reached so far; \<open>foldl_scanOp\<close> below shows that the loops
  compute it.
\<close>

fun selected ::
  "'s LoopLikeOpInterface \<Rightarrow> 's \<Rightarrow> nat set \<Rightarrow> Operation list \<Rightarrow> Operation list" where
  "selected looplike s W [] = []"
| "selected looplike s W (op # ops) =
     (if canBeHoisted op (isDefinedOutsideOfBody looplike s W)
      then op # selected looplike s (insert (opId op) W) ops
      else selected looplike s W ops)"

text \<open>
  The two collections at line 102, when the loops are done: the list handed to
  \<^verbatim>\<open>moveOutOfLoop\<close> and the set of addresses.
\<close>

definition opsToMove :: "'s LoopLikeOpInterface \<Rightarrow> 's \<Rightarrow> Operation list" where
  "opsToMove looplike s = fst (scanLoopBody looplike s (getLoopBody looplike s))"

definition willBeMovedSet :: "'s LoopLikeOpInterface \<Rightarrow> 's \<Rightarrow> nat set" where
  "willBeMovedSet looplike s = snd (scanLoopBody looplike s (getLoopBody looplike s))"

section \<open>Operations, blocks and values of a region\<close>

text \<open>
  Every operation in, and every block below, an operation or a block, at any depth and
  terminators included, in program order.
\<close>

primrec allOps :: "Operation \<Rightarrow> Operation list"
  and allOpsBlock :: "Block \<Rightarrow> Operation list" where
  "allOps (Op i operands iface nse rse regions) =
     Op i operands iface nse rse regions # concat (concat (map (map allOpsBlock) regions))"
| "allOpsBlock (Block b ops) = concat (map allOps ops)"

primrec allBlocks :: "Operation \<Rightarrow> Block list"
  and allBlocksBlock :: "Block \<Rightarrow> Block list" where
  "allBlocks (Op i operands iface nse rse regions) =
     concat (concat (map (map allBlocksBlock) regions))"
| "allBlocksBlock (Block b ops) = Block b ops # concat (map allBlocks ops)"

definition allOpsRegion :: "Region \<Rightarrow> Operation list" where
  "allOpsRegion region = concat (map allOpsBlock region)"

definition allBlocksRegion :: "Region \<Rightarrow> Block list" where
  "allBlocksRegion region = concat (map allBlocksBlock region)"

text \<open>The operations strictly inside an operation, and the operations of a list of blocks.\<close>

definition nestedOps :: "Operation \<Rightarrow> Operation list" where
  "nestedOps op = concat (concat (map (map allOpsBlock) (getRegions op)))"

definition opsOfBlocks :: "Block list \<Rightarrow> Operation list" where
  "opsOfBlocks blocks = concat (map getOperations blocks)"

text \<open>
  A value is defined within a list of operations when its defining operation is one of
  them or lies in their regions, or when it is an argument of a block in their regions.
\<close>

definition definedWithin :: "Operation list \<Rightarrow> Value \<Rightarrow> bool" where
  "definedWithin ops v =
     (case v of
        OpResult definingOp resultNumber \<Rightarrow> definingOp \<in> opId ` set (concat (map allOps ops))
      | BlockArgument owner argNumber \<Rightarrow> owner \<in> blockId ` set (concat (map allBlocks ops)))"

text \<open>
  A value is defined inside the regions of an operation when its defining operation
  lies in them or when it is an argument of one of their blocks.
\<close>

definition definedInRegionsOf :: "Operation \<Rightarrow> Value \<Rightarrow> bool" where
  "definedInRegionsOf op v =
     (case v of
        OpResult definingOp resultNumber \<Rightarrow> definingOp \<in> opId ` set (nestedOps op)
      | BlockArgument owner argNumber \<Rightarrow> owner \<in> blockId ` set (allBlocks op))"

section \<open>The operations the analyzer is called on\<close>

text \<open>
  A loop of the form \<^verbatim>\<open>for (x : xs) if (!p(x)) return false;\<close> evaluates \<open>p\<close> on the
  elements up to and including the first one that fails.
\<close>

definition callsUntilFailure :: "('a \<Rightarrow> bool) \<Rightarrow> 'a list \<Rightarrow> 'a list" where
  "callsUntilFailure p xs = takeWhile p xs @ take 1 (dropWhile p xs)"

text \<open>
  The operations on which \<^verbatim>\<open>canBeHoisted\<close> is invoked, in order, when it is called
  on \<open>op\<close>: \<open>op\<close> itself and, when the function reaches its loops (lines 63 to 69),
  the calls made for the inner operations until one of them fails.
\<close>

function analyzed :: "Operation \<Rightarrow> (Value \<Rightarrow> bool) \<Rightarrow> Operation list" where
  "analyzed op definedOutside =
     op #
     (if \<not> list_all definedOutside (getOperands op) then []
      else if (case memInterface op of
                 Some iface \<Rightarrow> \<not> hasNoEffect iface
               | None \<Rightarrow> \<not> hasNoSideEffect op \<and> \<not> hasRecursiveSideEffects op) then []
      else if \<not> hasRecursiveSideEffects op then []
      else concat (map (\<lambda>innerOp. analyzed innerOp definedOutside)
             (callsUntilFailure (\<lambda>innerOp. canBeHoisted innerOp definedOutside)
                (innerOps op))))"
  by pat_completeness auto
termination analyzed
proof (relation "measure (\<lambda>(op, definedOutside). size op)")
  show "wf (measure (\<lambda>(op, definedOutside). size op))" by simp
next
  fix op :: Operation and definedOutside :: "Value \<Rightarrow> bool" and innerOp :: Operation
  assume "innerOp \<in> set (callsUntilFailure (\<lambda>innerOp. canBeHoisted innerOp definedOutside)
                            (innerOps op))"
  then have "innerOp \<in> set (innerOps op)"
    by (auto simp: callsUntilFailure_def dest: set_takeWhileD in_set_takeD set_dropWhileD)
  then obtain region block where region: "region \<in> set (getRegions op)"
    and block: "block \<in> set region" and inner: "innerOp \<in> set (getOperations block)"
    by (auto simp: innerOps_def without_terminator_def dest: in_set_butlastD)
  from inner have "size innerOp \<le> size_list size (getOperations block)"
    by (simp add: size_list_estimation')
  then have a: "size innerOp \<le> size block"
    by (cases block) simp
  have b: "size block \<le> size_list size region"
    using block by (simp add: size_list_estimation')
  have c: "size_list size region \<le> size_list (size_list size) (getRegions op)"
    using region by (simp add: size_list_estimation')
  have d: "size_list (size_list size) (getRegions op) < size op"
    by (cases op) simp
  from a b c d have "size innerOp < size op" by linarith
  then show "((innerOp, definedOutside), (op, definedOutside))
                \<in> measure (\<lambda>(op, definedOutside). size op)"
    by simp
qed

declare analyzed.simps [simp del]

text \<open>
  The operations on which \<^verbatim>\<open>canBeHoisted\<close> is invoked during the scan of lines 91
  to 98, directly or in a recursive call, with \<^verbatim>\<open>willBeMovedSet\<close> growing as in
  \<open>scanOp\<close>.
\<close>

fun scanCalls ::
  "'s LoopLikeOpInterface \<Rightarrow> 's \<Rightarrow> nat set \<Rightarrow> Operation list \<Rightarrow> Operation list" where
  "scanCalls looplike s W [] = []"
| "scanCalls looplike s W (op # ops) =
     analyzed op (isDefinedOutsideOfBody looplike s W)
       @ scanCalls looplike s
           (if canBeHoisted op (isDefinedOutsideOfBody looplike s W)
            then insert (opId op) W else W) ops"

definition analyzedByScan :: "'s LoopLikeOpInterface \<Rightarrow> 's \<Rightarrow> Operation list" where
  "analyzedByScan looplike s = scanCalls looplike s {} (scanned (getLoopBody looplike s))"

section \<open>Observing the calls of the move primitive\<close>

text \<open>
  The pass is written against the interface, so it can be run on an interface that
  records its own use.  \<open>recording looplike\<close> behaves as \<open>looplike\<close> and keeps, next to
  the state of the IR, the list of the calls of \<^verbatim>\<open>moveOutOfLoop\<close> made so far: for each
  call the state of the IR at the call and the list of operations passed.
\<close>

definition recording ::
  "'s LoopLikeOpInterface \<Rightarrow> ('s \<times> ('s \<times> Operation list) list) LoopLikeOpInterface" where
  "recording looplike =
     \<lparr> getLoopBody = (\<lambda>(s, calls). getLoopBody looplike s),
       isDefinedOutsideOfLoop = (\<lambda>(s, calls). isDefinedOutsideOfLoop looplike s),
       moveOutOfLoop = (\<lambda>ops (s, calls).
         case moveOutOfLoop looplike ops s of
           (result, s') \<Rightarrow> (result, (s', calls @ [(s, ops)]))) \<rparr>"

section \<open>Order in a list\<close>

text \<open>\<open>precedes a b xs\<close>: \<open>b\<close> occurs in \<open>xs\<close> after the first occurrence of \<open>a\<close>.\<close>

fun precedes :: "'a \<Rightarrow> 'a \<Rightarrow> 'a list \<Rightarrow> bool" where
  "precedes a b [] = False"
| "precedes a b (x # xs) = (if x = a then b \<in> set xs else precedes a b xs)"

section \<open>Definitions before uses\<close>

text \<open>
  The values consumed by an operation or by an operation inside its regions.
\<close>

definition usedValues :: "Operation \<Rightarrow> Value list" where
  "usedValues op = concat (map getOperands (allOps op))"

text \<open>
  \<open>defBeforeUse [] ops\<close>: in the list \<open>ops\<close>, a value consumed by an operation, or
  inside it, is never defined within an operation that comes later in the list, and
  when it is defined within an operation that comes earlier, it is a result of that
  operation itself (a value defined inside a region is not visible outside the
  operation that holds the region).
\<close>

fun defBeforeUse :: "Operation list \<Rightarrow> Operation list \<Rightarrow> bool" where
  "defBeforeUse earlier [] = True"
| "defBeforeUse earlier (op # later) =
     (list_all (\<lambda>v.
        list_all (\<lambda>m. \<not> definedWithin [m] v) later
        \<and> list_all (\<lambda>m. definedWithin [m] v \<longrightarrow> getDefiningOp v = Some (opId m)) earlier)
        (usedValues op)
      \<and> defBeforeUse (earlier @ [op]) later)"

section \<open>A loop construct\<close>

text \<open>
  Modelled from the spec: the implementations of \<^verbatim>\<open>LoopLikeOpInterface\<close> are not
  in this file.  The spec describes a loop construct as an operation that can
  ``enumerate the loop body region, test whether a given value is defined outside the
  loop, physically move a list of operations to immediately precede the loop''.  The
  state is the body of the loop and the operations right before the loop; a value is
  defined outside the loop when neither its defining operation nor its owner block lies
  in the body; the move takes the listed operations out of the blocks of the body and
  appends them, in the order of the list, before the loop.
\<close>

record LoopState =
  loopRegion :: Region
  beforeLoop :: "Operation list"

definition definedInRegion :: "Region \<Rightarrow> Value \<Rightarrow> bool" where
  "definedInRegion region v =
     (case v of
        OpResult definingOp resultNumber \<Rightarrow> definingOp \<in> opId ` set (allOpsRegion region)
      | BlockArgument owner argNumber \<Rightarrow> owner \<in> blockId ` set (allBlocksRegion region))"

fun removeOps :: "Operation list \<Rightarrow> Block \<Rightarrow> Block" where
  "removeOps ops (Block b blockOps) =
     Block b (filter (\<lambda>op. opId op \<notin> opId ` set ops) blockOps)"

definition structuredLoop :: "LoopState LoopLikeOpInterface" where
  "structuredLoop =
     \<lparr> getLoopBody = loopRegion,
       isDefinedOutsideOfLoop = (\<lambda>s v. \<not> definedInRegion (loopRegion s) v),
       moveOutOfLoop = (\<lambda>ops s.
         (success, s\<lparr> loopRegion := map (removeOps ops) (loopRegion s),
                      beforeLoop := beforeLoop s @ ops \<rparr>)) \<rparr>"

text \<open>
  Modelled from the spec: a loop variant whose move primitive refuses every move
  (``the loop interface's physical relocation primitive refuses a move'') and leaves the
  IR as it is.
\<close>

definition refusingLoop :: "LoopState LoopLikeOpInterface" where
  "refusingLoop = structuredLoop \<lparr> moveOutOfLoop := (\<lambda>ops s. (failure, s)) \<rparr>"

text \<open>
  Modelled from the spec: what a successful \<^verbatim>\<open>moveOutOfLoop\<close> leaves behind.  Its
  implementations are not in this file; the spec has the primitive ``physically move
  every operation in \<open>toMove\<close>, in the collected order, to immediately precede the loop
  construct'', and \<^verbatim>\<open>isDefinedOutsideOfLoop\<close> test ``whether a given value is defined
  outside the loop''.  So in the state \<open>s'\<close> after the move of \<open>ops\<close> the listed
  operations are gone from the blocks of the body, which is otherwise as in \<open>s\<close>, and a
  value is defined outside the loop only if it was so in \<open>s\<close> or is defined within the
  moved operations.
\<close>

definition movedOutOfLoop ::
  "'s LoopLikeOpInterface \<Rightarrow> 's \<Rightarrow> Operation list \<Rightarrow> 's \<Rightarrow> bool" where
  "movedOutOfLoop looplike s ops s' =
     (getLoopBody looplike s' = map (removeOps ops) (getLoopBody looplike s)
      \<and> (\<forall>v. isDefinedOutsideOfLoop looplike s' v \<longrightarrow>
             isDefinedOutsideOfLoop looplike s v \<or> definedWithin ops v))"

text \<open>
  Modelled from the spec: where a successful \<^verbatim>\<open>moveOutOfLoop\<close> puts the operations.
  Its implementations are not in this file; the spec has the primitive ``physically move
  every operation in \<open>toMove\<close>, in the collected order, to immediately precede the loop
  construct''.  \<open>before\<close> reads off a state of the IR the operations that precede the
  loop, in program order; in the state \<open>s'\<close> after the move of \<open>ops\<close> they are those of
  \<open>s\<close> followed by \<open>ops\<close>, in the order of the list.
\<close>

definition placedBeforeLoop ::
  "('s \<Rightarrow> Operation list) \<Rightarrow> 's \<Rightarrow> Operation list \<Rightarrow> 's \<Rightarrow> bool" where
  "placedBeforeLoop before s ops s' = (before s' = before s @ ops)"

section \<open>Example loops\<close>

text \<open>
  The scenario of the spec: a loop body with \<open>x = const(5)\<close>, \<open>y = add(x, x)\<close> and
  \<open>z = load(loop_counter)\<close>, where the loop counter is the argument of the body block,
  followed by the terminator.
\<close>

definition constOp :: Operation where
  "constOp = Op 1 [] (Some (MemoryEffectOpInterface True)) False False []"

definition addOp :: Operation where
  "addOp = Op 2 [OpResult 1 0, OpResult 1 0] None True False []"

definition loadOp :: Operation where
  "loadOp = Op 3 [BlockArgument 10 0] (Some (MemoryEffectOpInterface False)) False False []"

definition yieldOp :: Operation where
  "yieldOp = Op 4 [] None False False []"

definition scenarioLoop :: LoopState where
  "scenarioLoop = \<lparr> loopRegion = [Block 10 [constOp, addOp, loadOp, yieldOp]], beforeLoop = [] \<rparr>"

text \<open>The loop of the scenario with \<open>constOp\<close> and \<open>addOp\<close> moved before it.\<close>

definition scenarioLoopAfter :: LoopState where
  "scenarioLoopAfter =
     \<lparr> loopRegion = [Block 10 [loadOp, yieldOp]], beforeLoop = [constOp, addOp] \<rparr>"

text \<open>
  An operation whose effect-free marker and memory effect classification disagree.
\<close>

definition contradictoryOp :: Operation where
  "contradictoryOp = Op 9 [] (Some (MemoryEffectOpInterface False)) True False []"

text \<open>
  An operation of unknown side effects that consumes the constant of the scenario: no
  memory effect interface, no marker.
\<close>

definition opaqueOp :: Operation where
  "opaqueOp = Op 12 [OpResult 1 0] None False False []"

text \<open>
  A loop body with a recursively side-effecting operation (in the manner of a
  conditional) whose single region computes with values of its own: \<open>innerUse\<close>
  consumes the result of its sibling \<open>innerDef\<close>.
\<close>

definition innerDef :: Operation where
  "innerDef = Op 6 [] None True False []"

definition innerUse :: Operation where
  "innerUse = Op 7 [OpResult 6 0] None True False []"

definition innerYield :: Operation where
  "innerYield = Op 8 [OpResult 7 0] None False False []"

definition ifOp :: Operation where
  "ifOp = Op 5 [OpResult 1 0] None False True [[Block 11 [innerDef, innerUse, innerYield]]]"

definition regionLoop :: LoopState where
  "regionLoop = \<lparr> loopRegion = [Block 10 [constOp, ifOp, yieldOp]], beforeLoop = [] \<rparr>"

text \<open>A loop whose body holds nothing but its terminator.\<close>

definition emptyLoop :: LoopState where
  "emptyLoop = \<lparr> loopRegion = [Block 10 [yieldOp]], beforeLoop = [] \<rparr>"

text \<open>
  A loop body of three blocks.  The entry block branches to block 22, which defines a
  value and branches to block 21, which uses it: every use is dominated by its
  definition, but the using block comes first in the list of blocks of the region.
  \<open>multiBlockLoopAfter\<close> is the same loop with \<open>defOp\<close> moved before it.
\<close>

definition useOp :: Operation where
  "useOp = Op 32 [OpResult 31 0] None True False []"

definition defOp :: Operation where
  "defOp = Op 31 [] None True False []"

definition branchOp :: "nat \<Rightarrow> Operation" where
  "branchOp i = Op i [] None False False []"

definition multiBlockLoop :: LoopState where
  "multiBlockLoop =
     \<lparr> loopRegion = [Block 20 [branchOp 30],
                      Block 21 [useOp, branchOp 33],
                      Block 22 [defOp, branchOp 34]],
       beforeLoop = [] \<rparr>"

definition multiBlockLoopAfter :: LoopState where
  "multiBlockLoopAfter =
     \<lparr> loopRegion = [Block 20 [branchOp 30],
                      Block 21 [useOp, branchOp 33],
                      Block 22 [branchOp 34]],
       beforeLoop = [defOp] \<rparr>"

section \<open>Basic facts about the analyzer and the scan\<close>

lemma list_all_innerOps:
  "list_all (\<lambda>region. list_all (\<lambda>block. list_all Q (without_terminator block)) region) (getRegions op)
     = list_all Q (innerOps op)"
  by (simp add: innerOps_def list_all_iff)

lemma canBeHoisted_unfold:
  "canBeHoisted op P =
     (list_all P (getOperands op) \<and> sideEffectTest op \<and>
      (hasRecursiveSideEffects op \<longrightarrow> list_all (\<lambda>innerOp. canBeHoisted innerOp P) (innerOps op)))"
  by (subst canBeHoisted.simps)
     (auto simp: sideEffectTest_def list_all_innerOps split: option.splits)

lemma canBeHoisted_Op:
  "canBeHoisted (Op i operands iface nse rse regions) P =
     (list_all P operands \<and> sideEffectTest (Op i operands iface nse rse regions) \<and>
      (rse \<longrightarrow> list_all (\<lambda>innerOp. canBeHoisted innerOp P)
                 (innerOps (Op i operands iface nse rse regions))))"
  by (subst canBeHoisted_unfold) simp

lemma in_innerOps:
  "innerOp \<in> set (innerOps op) \<longleftrightarrow>
     (\<exists>region \<in> set (getRegions op). \<exists>block \<in> set region. innerOp \<in> set (without_terminator block))"
  by (auto simp: innerOps_def)

lemma foldl_scanOp:
  "foldl (scanOp looplike s) (acc, W) ops =
     (acc @ selected looplike s W ops, W \<union> opId ` set (selected looplike s W ops))"
  by (induction ops arbitrary: acc W) auto

lemma foldl_scanBlock:
  "foldl (scanBlock looplike s) st blocks =
     foldl (scanOp looplike s) st (concat (map without_terminator blocks))"
  by (induction blocks arbitrary: st) (simp_all add: scanBlock_def)

lemma scanLoopBody_selected:
  "scanLoopBody looplike s loopBody =
     (selected looplike s {} (scanned loopBody),
      opId ` set (selected looplike s {} (scanned loopBody)))"
  by (simp add: scanLoopBody_def foldl_scanBlock foldl_scanOp scanned_def)

lemma opsToMove_selected:
  "opsToMove looplike s = selected looplike s {} (scanned (getLoopBody looplike s))"
  by (simp add: opsToMove_def scanLoopBody_selected)

lemma willBeMovedSet_opsToMove:
  "willBeMovedSet looplike s = opId ` set (opsToMove looplike s)"
  by (simp add: willBeMovedSet_def opsToMove_def scanLoopBody_selected)

lemma moveLoopInvariantCode_opsToMove:
  "moveLoopInvariantCode looplike s = moveOutOfLoop looplike (opsToMove looplike s) s"
  by (simp add: moveLoopInvariantCode_def opsToMove_def split_def)

lemma selected_append:
  "selected looplike s W (xs @ ys) =
     selected looplike s W xs
       @ selected looplike s (W \<union> opId ` set (selected looplike s W xs)) ys"
  by (induction xs arbitrary: W) auto

lemma subseq_selected: "subseq (selected looplike s W ops) ops"
  by (induction ops arbitrary: W) auto

lemma set_selected_subset: "set (selected looplike s W ops) \<subseteq> set ops"
  by (induction ops arbitrary: W) auto

lemma selected_nth:
  "k < length (selected looplike s W ops) \<Longrightarrow>
     canBeHoisted (selected looplike s W ops ! k)
       (isDefinedOutsideOfBody looplike s (W \<union> opId ` set (take k (selected looplike s W ops))))"
proof (induction ops arbitrary: W k)
  case Nil
  then show ?case by simp
next
  case (Cons op ops)
  show ?case
  proof (cases "canBeHoisted op (isDefinedOutsideOfBody looplike s W)")
    case True
    show ?thesis
    proof (cases k)
      case 0
      with True show ?thesis by simp
    next
      case (Suc j)
      with Cons.prems True have "j < length (selected looplike s (insert (opId op) W) ops)"
        by simp
      from Cons.IH [OF this] True Suc show ?thesis by simp
    qed
  next
    case False
    with Cons show ?thesis by simp
  qed
qed

lemma selected_hoistable:
  assumes "op \<in> set (selected looplike s W ops)"
  shows "\<exists>W'. canBeHoisted op (isDefinedOutsideOfBody looplike s W')"
proof -
  from assms obtain k where "k < length (selected looplike s W ops)"
    and "selected looplike s W ops ! k = op"
    by (auto simp: in_set_conv_nth)
  with selected_nth [of k looplike s W ops] show ?thesis by auto
qed

lemma selected_hoistable_bounded:
  assumes "op \<in> set (selected looplike s W ops)"
  shows "\<exists>W'. W' \<subseteq> W \<union> opId ` set ops \<and> canBeHoisted op (isDefinedOutsideOfBody looplike s W')"
proof -
  from assms obtain k where k: "k < length (selected looplike s W ops)"
    and op: "selected looplike s W ops ! k = op"
    by (auto simp: in_set_conv_nth)
  have "set (take k (selected looplike s W ops)) \<subseteq> set ops"
    using set_selected_subset [of looplike s W ops] set_take_subset [of k "selected looplike s W ops"]
    by blast
  then have "W \<union> opId ` set (take k (selected looplike s W ops)) \<subseteq> W \<union> opId ` set ops"
    by blast
  with selected_nth [OF k] op show ?thesis by blast
qed

lemma rejected_by_side_effect_test: "\<not> sideEffectTest op \<Longrightarrow> \<not> canBeHoisted op P"
  using canBeHoisted_unfold [of op P] by blast

lemma rejected_by_inner_operand:
  assumes "hasRecursiveSideEffects op" "innerOp \<in> set (innerOps op)"
    "v \<in> set (getOperands innerOp)" "\<not> P v"
  shows "\<not> canBeHoisted op P"
proof -
  from assms(3,4) have "\<not> canBeHoisted innerOp P"
    using canBeHoisted_unfold [of innerOp P] by (auto simp: list_all_iff)
  with assms(1,2) show ?thesis
    using canBeHoisted_unfold [of op P] by (auto simp: list_all_iff)
qed

section \<open>Evaluation on the example loops\<close>

text \<open>Evaluation of the analyzer and the scan on concrete loops.\<close>

lemmas scenario_defs = scenarioLoop_def regionLoop_def constOp_def addOp_def loadOp_def
  yieldOp_def ifOp_def innerDef_def innerUse_def innerYield_def contradictoryOp_def

lemmas eval_simps = opsToMove_selected scanned_def without_terminator_def structuredLoop_def
  canBeHoisted_Op sideEffectTest_def isDefinedOutsideOfBody_def definedInRegion_def
  allOpsRegion_def allBlocksRegion_def innerOps_def

lemma scenario_opsToMove: "opsToMove structuredLoop scenarioLoop = [constOp, addOp]"
  by (simp add: scenario_defs eval_simps)

lemma regionLoop_opsToMove: "opsToMove structuredLoop regionLoop = [constOp]"
  by (simp add: scenario_defs eval_simps)

section \<open>Order in the selected list\<close>

lemma precedes_in_set: "precedes a b xs \<Longrightarrow> a \<in> set xs \<and> b \<in> set xs"
  by (induction xs) (auto split: if_splits)

lemma precedes_asym: "distinct xs \<Longrightarrow> precedes a b xs \<Longrightarrow> \<not> precedes b a xs"
  by (induction xs) (auto split: if_splits dest: precedes_in_set)

lemma precedes_append_right: "precedes a b xs \<Longrightarrow> precedes a b (xs @ ys)"
  by (induction xs) (auto split: if_splits)

lemma precedes_append_left: "a \<notin> set ws \<Longrightarrow> precedes a b xs \<Longrightarrow> precedes a b (ws @ xs)"
  by (induction ws) auto

lemma precedes_append_any: "precedes a b xs \<Longrightarrow> precedes a b (ws @ xs)"
proof (induction ws)
  case Nil
  then show ?case by simp
next
  case (Cons w ws)
  from Cons.prems have "b \<in> set xs" by (auto dest: precedes_in_set)
  with Cons show ?case by simp
qed

lemma precedes_append_fresh: "b \<notin> set ws \<Longrightarrow> precedes b a (ws @ xs) = precedes b a xs"
  by (induction ws) auto

lemma precedes_subseq:
  assumes "subseq ys xs" "distinct xs" "precedes a b xs" "a \<in> set ys" "b \<in> set ys"
  shows "precedes a b ys"
  using assms
proof (induction rule: list_emb.induct)
  case (list_emb_Nil ys)
  then show ?case by simp
next
  case (list_emb_Cons xs ys y)
  have "set xs \<subseteq> set ys" using list_emb_Cons.hyps by (auto dest: list_emb_set)
  with list_emb_Cons show ?case by (auto split: if_splits)
next
  case (list_emb_Cons2 x y xs ys)
  have "set xs \<subseteq> set ys" using list_emb_Cons2.hyps by (auto dest: list_emb_set)
  with list_emb_Cons2 show ?case by (auto split: if_splits dest: precedes_in_set)
qed

lemma precedes_scanned:
  assumes "distinct (scanned loopBody)" "block \<in> set loopBody"
    "precedes a b (without_terminator block)"
  shows "precedes a b (scanned loopBody)"
proof -
  from assms(2) obtain bs1 bs2 where split: "loopBody = bs1 @ block # bs2"
    by (auto dest: split_list)
  then have sc: "scanned loopBody = scanned bs1 @ (without_terminator block @ scanned bs2)"
    by (simp add: scanned_def)
  from assms(3) have "a \<in> set (without_terminator block)"
    by (auto dest: precedes_in_set)
  with assms(1) sc have "a \<notin> set (scanned bs1)"
    by auto
  moreover from assms(3) have "precedes a b (without_terminator block @ scanned bs2)"
    by (rule precedes_append_right)
  ultimately show ?thesis
    unfolding sc by (rule precedes_append_left)
qed

lemma distinct_selected: "distinct ops \<Longrightarrow> distinct (selected looplike s W ops)"
proof (induction ops arbitrary: W)
  case Nil
  show ?case by simp
next
  case (Cons op ops)
  then show ?case
    using set_selected_subset [of looplike s "insert (opId op) W" ops] by auto
qed

lemma structuredLoop_placedBeforeLoop:
  "placedBeforeLoop beforeLoop s ops (snd (moveOutOfLoop structuredLoop ops s))"
  by (simp add: placedBeforeLoop_def structuredLoop_def)

section \<open>The pass on a recording interface\<close>

lemma isDefinedOutsideOfBody_recording:
  "isDefinedOutsideOfBody (recording looplike) (s, calls) W = isDefinedOutsideOfBody looplike s W"
  by (rule ext) (simp add: isDefinedOutsideOfBody_def recording_def)

lemma selected_recording:
  "selected (recording looplike) (s, calls) W ops = selected looplike s W ops"
  by (induction ops arbitrary: W) (simp_all add: isDefinedOutsideOfBody_recording)

lemma opsToMove_recording:
  "opsToMove (recording looplike) (s, calls) = opsToMove looplike s"
  by (simp add: opsToMove_selected selected_recording) (simp add: recording_def)

lemma moveLoopInvariantCode_recording:
  "moveLoopInvariantCode (recording looplike) (s, calls) =
     (fst (moveOutOfLoop looplike (opsToMove looplike s) s),
      snd (moveOutOfLoop looplike (opsToMove looplike s) s),
      calls @ [(s, opsToMove looplike s)])"
  by (simp add: moveLoopInvariantCode_opsToMove opsToMove_recording)
     (simp add: recording_def split_def)

lemma runOnOperation_recording_calls:
  "length (snd (fst (runOnOperation (map recording loops) ((s, calls), passFailed))))
     = length calls + length loops"
proof (induction loops arbitrary: s calls passFailed)
  case Nil
  show ?case by simp
next
  case (Cons loopLike loops)
  show ?case
    by (simp add: moveLoopInvariantCode_recording Cons.IH)
qed

lemma emptyLoop_opsToMove: "opsToMove structuredLoop emptyLoop = []"
  by (simp add: emptyLoop_def opsToMove_selected scanned_def without_terminator_def structuredLoop_def)

section \<open>The structure of regions\<close>

lemma allOps_nestedOps: "allOps op = op # nestedOps op"
  by (cases op) (simp add: nestedOps_def)

lemma opsOfBlocks_append [simp]: "opsOfBlocks (xs @ ys) = opsOfBlocks xs @ opsOfBlocks ys"
  by (simp add: opsOfBlocks_def)

lemma opsOfBlocks_Cons [simp]: "opsOfBlocks (b # bs) = getOperations b @ opsOfBlocks bs"
  by (simp add: opsOfBlocks_def)

lemma opsOfBlocks_Nil [simp]: "opsOfBlocks [] = []"
  by (simp add: opsOfBlocks_def)

lemma mset_opsOfBlocks_concat_map:
  assumes "\<And>x. x \<in> set xs \<Longrightarrow> mset (opsOfBlocks (F x)) = mset (G x)"
  shows "mset (opsOfBlocks (concat (map F xs))) = mset (concat (map G xs))"
  using assms by (induction xs) simp_all

lemma mset_opsOfBlocks_regions:
  assumes "\<And>region block. region \<in> set regions \<Longrightarrow> block \<in> set region \<Longrightarrow>
             mset (opsOfBlocks (F block)) = mset (G block)"
  shows "mset (opsOfBlocks (concat (concat (map (map F) regions))))
           = mset (concat (concat (map (map G) regions)))"
  using assms
proof (induction regions)
  case Nil
  show ?case by simp
next
  case (Cons region regions)
  have "mset (opsOfBlocks (concat (map F region))) = mset (concat (map G region))"
    using Cons.prems [of region] by (intro mset_opsOfBlocks_concat_map) simp
  moreover have "mset (opsOfBlocks (concat (concat (map (map F) regions))))
           = mset (concat (concat (map (map G) regions)))"
    using Cons.prems by (intro Cons.IH) auto
  ultimately show ?case by simp
qed

lemma mset_opsOfBlocks_ops:
  assumes "\<And>x. x \<in> set ops \<Longrightarrow> mset (opsOfBlocks (allBlocks x)) = mset (nestedOps x)"
  shows "mset ops + mset (opsOfBlocks (concat (map allBlocks ops))) = mset (concat (map allOps ops))"
  using assms by (induction ops) (simp_all add: allOps_nestedOps)

lemma mset_ops_of_all_blocks:
  "mset (opsOfBlocks (allBlocks op)) = mset (nestedOps op)"
  "mset (opsOfBlocks (allBlocksBlock block)) = mset (allOpsBlock block)"
proof (induction op and block)
  case (Op i operands iface nse rse regions)
  then show ?case
    by (simp add: nestedOps_def mset_opsOfBlocks_regions)
next
  case (Block b ops)
  then show ?case
    using mset_opsOfBlocks_ops [of ops] by simp
qed

lemma mset_ops_of_region:
  "mset (opsOfBlocks (allBlocksRegion region)) = mset (allOpsRegion region)"
  unfolding allBlocksRegion_def allOpsRegion_def
  by (rule mset_opsOfBlocks_concat_map) (rule mset_ops_of_all_blocks)

lemma distinct_ops_of_region:
  assumes "distinct (map opId (allOpsRegion region))"
  shows "distinct (map opId (opsOfBlocks (allBlocksRegion region)))"
proof -
  have "mset (map opId (opsOfBlocks (allBlocksRegion region))) = mset (map opId (allOpsRegion region))"
    by (simp add: mset_ops_of_region)
  from mset_eq_imp_distinct_iff [OF this] assms show ?thesis by blast
qed

lemma last_not_among_butlasts:
  assumes "distinct (map f (concat xss))" "xs \<in> set xss" "xs \<noteq> []"
  shows "f (last xs) \<notin> f ` set (concat (map butlast xss))"
  using assms
proof (induction xss)
  case Nil
  then show ?case by simp
next
  case (Cons a xss)
  from Cons.prems(1) have da: "distinct (map f a)" and dr: "distinct (map f (concat xss))"
    and disj: "f ` set a \<inter> f ` set (concat xss) = {}"
    by auto
  have sub: "set (concat (map butlast xss)) \<subseteq> set (concat xss)"
    by (auto dest: in_set_butlastD)
  show ?case
  proof (cases "xs = a")
    case True
    with Cons.prems(3) have a: "a = butlast a @ [last a]" by simp
    have "map f a = map f (butlast a) @ [f (last a)]"
      by (subst a) simp
    with da have "distinct (map f (butlast a) @ [f (last a)])"
      by simp
    then have 1: "f (last a) \<notin> f ` set (butlast a)" by auto
    from True Cons.prems(3) have "last a \<in> set a" by simp
    with disj sub have 2: "f (last a) \<notin> f ` set (concat (map butlast xss))" by blast
    from 1 2 True show ?thesis by auto
  next
    case False
    with Cons.prems have xs: "xs \<in> set xss" by simp
    from Cons.IH [OF dr xs Cons.prems(3)]
    have 1: "f (last xs) \<notin> f ` set (concat (map butlast xss))" .
    from Cons.prems(3) have "last xs \<in> set xs" by simp
    with xs have "last xs \<in> set (concat xss)" by auto
    with disj have "f (last xs) \<notin> f ` set a" by blast
    then have 2: "f (last xs) \<notin> f ` set (butlast a)" by (auto dest: in_set_butlastD)
    from 1 2 show ?thesis by auto
  qed
qed

section \<open>The calls of the analyzer\<close>

lemma set_callsUntilFailure: "set (callsUntilFailure p xs) \<subseteq> set xs"
  by (auto simp: callsUntilFailure_def dest: set_takeWhileD in_set_takeD set_dropWhileD)

lemma block_in_allBlocks:
  "region \<in> set (getRegions op) \<Longrightarrow> block \<in> set region
     \<Longrightarrow> set (allBlocksBlock block) \<subseteq> set (allBlocks op)"
  by (cases op) auto

lemma self_in_allBlocksBlock: "block \<in> set (allBlocksBlock block)"
  by (cases block) simp

lemma op_blocks_in_block:
  "x \<in> set (getOperations block) \<Longrightarrow> set (allBlocks x) \<subseteq> set (allBlocksBlock block)"
  by (cases block) auto

lemma scanned_mono: "set bs \<subseteq> set bs' \<Longrightarrow> set (scanned bs) \<subseteq> set (scanned bs')"
  by (auto simp: scanned_def)

lemma in_scanned:
  "x \<in> set (scanned blocks) \<longleftrightarrow> (\<exists>block \<in> set blocks. x \<in> set (without_terminator block))"
  by (auto simp: scanned_def)

lemma without_terminator_subset: "set (without_terminator block) \<subseteq> set (getOperations block)"
  by (auto simp: without_terminator_def dest: in_set_butlastD)

lemma innerOps_reach:
  assumes "innerOp \<in> set (innerOps op)"
  shows "innerOp \<in> set (scanned (allBlocks op))"
    and "set (allBlocks innerOp) \<subseteq> set (allBlocks op)"
proof -
  from assms obtain region block where r: "region \<in> set (getRegions op)"
    and b: "block \<in> set region" and i: "innerOp \<in> set (without_terminator block)"
    by (auto simp: in_innerOps)
  from block_in_allBlocks [OF r b] self_in_allBlocksBlock [of block]
  have "block \<in> set (allBlocks op)" by blast
  with i show "innerOp \<in> set (scanned (allBlocks op))"
    by (auto simp: in_scanned)
  from i have "innerOp \<in> set (getOperations block)"
    using without_terminator_subset by blast
  from op_blocks_in_block [OF this] block_in_allBlocks [OF r b]
  show "set (allBlocks innerOp) \<subseteq> set (allBlocks op)" by blast
qed

lemma size_innerOps:
  assumes "innerOp \<in> set (innerOps op)"
  shows "size innerOp < size op"
proof -
  from assms obtain region block where region: "region \<in> set (getRegions op)"
    and block: "block \<in> set region" and inner: "innerOp \<in> set (getOperations block)"
    by (auto simp: innerOps_def without_terminator_def dest: in_set_butlastD)
  from inner have "size innerOp \<le> size_list size (getOperations block)"
    by (simp add: size_list_estimation')
  then have a: "size innerOp \<le> size block"
    by (cases block) simp
  have b: "size block \<le> size_list size region"
    using block by (simp add: size_list_estimation')
  have c: "size_list size region \<le> size_list (size_list size) (getRegions op)"
    using region by (simp add: size_list_estimation')
  have d: "size_list (size_list size) (getRegions op) < size op"
    by (cases op) simp
  from a b c d show ?thesis by linarith
qed

lemma analyzed_unfold:
  "analyzed op P =
     op # (if list_all P (getOperands op) \<and> sideEffectTest op \<and> hasRecursiveSideEffects op
           then concat (map (\<lambda>innerOp. analyzed innerOp P)
                  (callsUntilFailure (\<lambda>innerOp. canBeHoisted innerOp P) (innerOps op)))
           else [])"
  by (subst analyzed.simps) (auto simp: sideEffectTest_def split: option.splits)

lemma analyzed_subset:
  "set (analyzed op P) \<subseteq> insert op (set (scanned (allBlocks op)))"
proof (induction op rule: measure_induct_rule [of size])
  case (less op)
  show ?case
  proof
    fix x assume x: "x \<in> set (analyzed op P)"
    show "x \<in> insert op (set (scanned (allBlocks op)))"
    proof (cases "x = op")
      case True
      then show ?thesis by simp
    next
      case False
      from x have "x \<in> set (op # (if list_all P (getOperands op) \<and> sideEffectTest op
                                        \<and> hasRecursiveSideEffects op
           then concat (map (\<lambda>innerOp. analyzed innerOp P)
                  (callsUntilFailure (\<lambda>innerOp. canBeHoisted innerOp P) (innerOps op)))
           else []))"
        by (subst (asm) analyzed_unfold)
      with False obtain innerOp where
        c: "innerOp \<in> set (callsUntilFailure (\<lambda>innerOp. canBeHoisted innerOp P) (innerOps op))"
        and xi: "x \<in> set (analyzed innerOp P)"
        by (auto split: if_splits)
      from c have i: "innerOp \<in> set (innerOps op)"
        by (rule subsetD [OF set_callsUntilFailure])
      from less.IH [OF size_innerOps [OF i]] xi
      have "x \<in> insert innerOp (set (scanned (allBlocks innerOp)))" by blast
      with innerOps_reach [OF i] scanned_mono [of "allBlocks innerOp" "allBlocks op"]
      show ?thesis by blast
    qed
  qed
qed

lemma scanned_reach:
  assumes "x \<in> set (scanned loopBody)"
  shows "x \<in> set (scanned (allBlocksRegion loopBody))"
    and "set (allBlocks x) \<subseteq> set (allBlocksRegion loopBody)"
proof -
  from assms obtain block where b: "block \<in> set loopBody"
    and x: "x \<in> set (without_terminator block)"
    by (auto simp: in_scanned)
  from b have sub: "set (allBlocksBlock block) \<subseteq> set (allBlocksRegion loopBody)"
    by (auto simp: allBlocksRegion_def)
  with self_in_allBlocksBlock [of block] have "block \<in> set (allBlocksRegion loopBody)"
    by blast
  with x show "x \<in> set (scanned (allBlocksRegion loopBody))"
    by (auto simp: in_scanned)
  from x have "x \<in> set (getOperations block)"
    using without_terminator_subset by blast
  from op_blocks_in_block [OF this] sub
  show "set (allBlocks x) \<subseteq> set (allBlocksRegion loopBody)" by blast
qed

lemma scanCalls_subset:
  assumes "set ops \<subseteq> set (scanned loopBody)"
  shows "set (scanCalls looplike s W ops) \<subseteq> set (scanned (allBlocksRegion loopBody))"
  using assms
proof (induction ops arbitrary: W)
  case Nil
  show ?case by simp
next
  case (Cons op ops)
  from Cons.prems have op: "op \<in> set (scanned loopBody)" by simp
  have "set (analyzed op (isDefinedOutsideOfBody looplike s W))
          \<subseteq> set (scanned (allBlocksRegion loopBody))"
    using analyzed_subset [of op "isDefinedOutsideOfBody looplike s W"]
      scanned_reach [OF op] scanned_mono [of "allBlocks op" "allBlocksRegion loopBody"]
    by blast
  moreover from Cons.prems have "set ops \<subseteq> set (scanned loopBody)" by simp
  note Cons.IH [OF this]
  ultimately show ?case by simp
qed

lemma terminator_not_scanned:
  assumes "distinct (map opId (allOpsRegion loopBody))"
    and "block \<in> set (allBlocksRegion loopBody)" and "getOperations block \<noteq> []"
  shows "opId (last (getOperations block)) \<notin> opId ` set (scanned (allBlocksRegion loopBody))"
proof -
  have d: "distinct (map opId (concat (map getOperations (allBlocksRegion loopBody))))"
    using distinct_ops_of_region [OF assms(1)] by (simp add: opsOfBlocks_def)
  have "opId (last (getOperations block))
          \<notin> opId ` set (concat (map butlast (map getOperations (allBlocksRegion loopBody))))"
    using d assms(2,3) by (intro last_not_among_butlasts) auto
  then show ?thesis
    by (simp add: scanned_def without_terminator_def comp_def)
qed

lemma analyzed_Op:
  "analyzed (Op i operands iface nse rse regions) P =
     Op i operands iface nse rse regions #
       (if list_all P operands \<and> sideEffectTest (Op i operands iface nse rse regions) \<and> rse
        then concat (map (\<lambda>innerOp. analyzed innerOp P)
               (callsUntilFailure (\<lambda>innerOp. canBeHoisted innerOp P)
                  (innerOps (Op i operands iface nse rse regions))))
        else [])"
  by (subst analyzed_unfold) simp

lemma regionLoop_analyzed:
  "analyzedByScan structuredLoop regionLoop = [constOp, ifOp, innerDef, innerUse]"
  by (simp add: analyzedByScan_def scenario_defs eval_simps analyzed_Op callsUntilFailure_def)

section \<open>Operations inside regions\<close>

lemma allOpsBlock_eq: "allOpsBlock block = concat (map allOps (getOperations block))"
  by (cases block) simp

lemma allOpsRegion_tops:
  "allOpsRegion region = concat (map allOps (opsOfBlocks region))"
  by (induction region) (simp_all add: allOpsRegion_def allOpsBlock_eq)

lemma nested_not_among_tops:
  assumes "distinct (map f (concat (map g xs)))" and "\<And>x. g x = x # h x"
    and "x \<in> set xs" and "z \<in> set (h x)"
  shows "f z \<notin> f ` set xs"
  using assms(1,3)
proof (induction xs)
  case Nil
  then show ?case by simp
next
  case (Cons a xs)
  from Cons.prems(1) assms(2) [of a]
  have fa: "f a \<notin> f ` set (h a)" and dr: "distinct (map f (concat (map g xs)))"
    and disj: "f ` set (a # h a) \<inter> f ` set (concat (map g xs)) = {}"
    by auto
  have tops: "set xs \<subseteq> set (concat (map g xs))"
    using assms(2) by fastforce
  show ?case
  proof (cases "x = a")
    case True
    with assms(4) fa have 1: "f z \<noteq> f a" by (metis imageI)
    from True assms(4) have "f z \<in> f ` set (a # h a)" by simp
    with disj tops have "f z \<notin> f ` set xs" by blast
    with 1 show ?thesis by simp
  next
    case False
    with Cons.prems have x: "x \<in> set xs" by simp
    from Cons.IH [OF dr x] have 1: "f z \<notin> f ` set xs" .
    from x assms(2,4) have "z \<in> set (concat (map g xs))" by fastforce
    then have "f z \<in> f ` set (concat (map g xs))" by (rule imageI)
    moreover have "f a \<in> f ` set (a # h a)" by simp
    ultimately have "f z \<noteq> f a" using disj by (metis disjoint_iff)
    with 1 show ?thesis by simp
  qed
qed

lemma scanned_subset_tops: "set (scanned region) \<subseteq> set (opsOfBlocks region)"
  using without_terminator_subset by (fastforce simp: scanned_def opsOfBlocks_def)

section \<open>The loop body after a move\<close>

lemma defBeforeUse_split:
  assumes "defBeforeUse earlier (pre @ op # post)" "v \<in> set (usedValues op)"
  shows "(\<forall>m \<in> set post. \<not> definedWithin [m] v)
       \<and> (\<forall>m \<in> set earlier \<union> set pre. definedWithin [m] v \<longrightarrow> getDefiningOp v = Some (opId m))"
  using assms
proof (induction pre arbitrary: earlier)
  case Nil
  then show ?case by (auto simp: list_all_iff)
next
  case (Cons a pre)
  from Cons.prems(1) have "defBeforeUse (earlier @ [a]) (pre @ op # post)" by simp
  from Cons.IH [OF this Cons.prems(2)] show ?case by auto
qed

lemma definedWithin_iff:
  "definedWithin ops v \<longleftrightarrow> (\<exists>m \<in> set ops. definedWithin [m] v)"
  by (cases v) (auto simp: definedWithin_def)

lemma innerOps_allOps:
  assumes "innerOp \<in> set (innerOps op)"
  shows "set (allOps innerOp) \<subseteq> set (nestedOps op)"
proof -
  from assms obtain region block where r: "region \<in> set (getRegions op)"
    and b: "block \<in> set region" and i: "innerOp \<in> set (without_terminator block)"
    by (auto simp: in_innerOps)
  from i have "innerOp \<in> set (getOperations block)"
    using without_terminator_subset by blast
  then have "set (allOps innerOp) \<subseteq> set (allOpsBlock block)"
    by (auto simp: allOpsBlock_eq)
  with r b show ?thesis
    by (auto simp: nestedOps_def)
qed

lemma canBeHoisted_mono:
  assumes "canBeHoisted op P'"
    and "\<And>x v. x \<in> set (allOps op) \<Longrightarrow> v \<in> set (getOperands x) \<Longrightarrow> P' v \<Longrightarrow> P v"
  shows "canBeHoisted op P"
  using assms
proof (induction op rule: measure_induct_rule [of size])
  case (less op)
  from less.prems(1) have ops: "list_all P' (getOperands op)" and test: "sideEffectTest op"
    and rec: "hasRecursiveSideEffects op \<longrightarrow>
                list_all (\<lambda>innerOp. canBeHoisted innerOp P') (innerOps op)"
    using canBeHoisted_unfold [of op P'] by blast+
  have self: "op \<in> set (allOps op)"
    by (simp add: allOps_nestedOps)
  from ops less.prems(2) [OF self] have 1: "list_all P (getOperands op)"
    by (auto simp: list_all_iff)
  have 2: "list_all (\<lambda>innerOp. canBeHoisted innerOp P) (innerOps op)"
    if "hasRecursiveSideEffects op"
    unfolding list_all_iff
  proof
    fix innerOp assume i: "innerOp \<in> set (innerOps op)"
    with rec that have h: "canBeHoisted innerOp P'"
      by (auto simp: list_all_iff)
    have sub: "set (allOps innerOp) \<subseteq> set (allOps op)"
      using innerOps_allOps [OF i] by (auto simp: allOps_nestedOps [of op])
    show "canBeHoisted innerOp P"
      using less.IH [OF size_innerOps [OF i] h] less.prems(2) sub by blast
  qed
  from 1 test 2 show ?case
    using canBeHoisted_unfold [of op P] by blast
qed

lemma selected_none:
  assumes "\<And>op. op \<in> set ops \<Longrightarrow> \<not> canBeHoisted op (isDefinedOutsideOfBody looplike s W)"
  shows "selected looplike s W ops = []"
  using assms by (induction ops) simp_all

lemma distinct_scanned:
  assumes "distinct (map opId (opsOfBlocks region))"
  shows "distinct (map opId (scanned region))"
  using assms
proof (induction region)
  case Nil
  show ?case by (simp add: scanned_def)
next
  case (Cons block region)
  from Cons.prems have d1: "distinct (map opId (getOperations block))"
    and d2: "distinct (map opId (opsOfBlocks region))"
    and disj: "opId ` set (getOperations block) \<inter> opId ` set (opsOfBlocks region) = {}"
    by auto
  from d1 have "distinct (butlast (map opId (getOperations block)))"
    by (rule distinct_butlast)
  then have a: "distinct (map opId (without_terminator block))"
    by (simp add: without_terminator_def map_butlast)
  from Cons.IH [OF d2] have b: "distinct (map opId (scanned region))" .
  have "opId ` set (without_terminator block) \<inter> opId ` set (scanned region) = {}"
    using disj without_terminator_subset [of block] scanned_subset_tops [of region] by blast
  with a b show ?case
    by (simp add: scanned_def)
qed

lemma scanned_removeOps:
  assumes d: "distinct (map opId (opsOfBlocks region))"
    and W: "set ops \<subseteq> set (scanned region)"
  shows "scanned (map (removeOps ops) region)
           = filter (\<lambda>op. opId op \<notin> opId ` set ops) (scanned region)"
proof -
  let ?keep = "\<lambda>op. opId op \<notin> opId ` set ops"
  have blk: "without_terminator (removeOps ops block) = filter ?keep (without_terminator block)"
    if b: "block \<in> set region" for block
  proof (cases "getOperations block = []")
    case True
    then show ?thesis by (cases block) (simp add: without_terminator_def)
  next
    case False
    have "opId (last (getOperations block))
            \<notin> opId ` set (concat (map butlast (map getOperations region)))"
      using d b False by (intro last_not_among_butlasts) (auto simp: opsOfBlocks_def)
    then have "opId (last (getOperations block)) \<notin> opId ` set (scanned region)"
      by (simp add: scanned_def without_terminator_def comp_def)
    with W have keep: "?keep (last (getOperations block))" by blast
    from False obtain bl l where split: "getOperations block = bl @ [l]"
      by (metis append_butlast_last_id)
    with keep have "butlast (filter ?keep (getOperations block))
                 = filter ?keep (butlast (getOperations block))"
      by simp
    then show ?thesis by (cases block) (simp add: without_terminator_def)
  qed
  then have "map (\<lambda>block. without_terminator (removeOps ops block)) region
          = map (\<lambda>block. filter ?keep (without_terminator block)) region"
    by simp
  then have "concat (map (\<lambda>block. without_terminator (removeOps ops block)) region)
          = concat (map (\<lambda>block. filter ?keep (without_terminator block)) region)"
    by (rule arg_cong)
  then show ?thesis
    by (simp add: scanned_def comp_def filter_concat)
qed

lemma opsOfBlocks_removeOps:
  "opsOfBlocks (map (removeOps ops) region)
     = filter (\<lambda>op. opId op \<notin> opId ` set ops) (opsOfBlocks region)"
proof (induction region)
  case Nil
  show ?case by simp
next
  case (Cons block region)
  then show ?case by (cases block) simp
qed

lemma allBlocksBlock_eq:
  "allBlocksBlock block = block # concat (map allBlocks (getOperations block))"
  by (cases block) simp

lemma set_allBlocksRegion:
  "set (allBlocksRegion region)
     = set region \<union> set (concat (map allBlocks (opsOfBlocks region)))"
  by (induction region) (auto simp: allBlocksRegion_def allBlocksBlock_eq)

lemma blockId_removeOps [simp]: "blockId (removeOps ops block) = blockId block"
  by (cases block) simp

lemma kept_or_moved:
  assumes d: "distinct (map opId (opsOfBlocks region))"
    and sub: "set ops \<subseteq> set (opsOfBlocks region)"
    and t: "t \<in> set (opsOfBlocks region)"
  shows "t \<in> set (opsOfBlocks (map (removeOps ops) region)) \<or> t \<in> set ops"
proof (cases "opId t \<in> opId ` set ops")
  case True
  then obtain m where m: "m \<in> set ops" and eq: "opId m = opId t" by auto
  from d have "inj_on opId (set (opsOfBlocks region))"
    by (simp add: distinct_map)
  with m sub t eq have "m = t"
    by (auto dest: inj_onD)
  with m show ?thesis by simp
next
  case False
  with t show ?thesis by (simp add: opsOfBlocks_removeOps)
qed

lemma structuredLoop_movedOutOfLoop:
  assumes d: "distinct (map opId (opsOfBlocks (loopRegion s)))"
    and sub: "set ops \<subseteq> set (opsOfBlocks (loopRegion s))"
  shows "movedOutOfLoop structuredLoop s ops (snd (moveOutOfLoop structuredLoop ops s))"
proof -
  let ?body = "loopRegion s" and ?body' = "map (removeOps ops) (loopRegion s)"
  have "definedInRegion ?body' v" if v: "definedInRegion ?body v" and n: "\<not> definedWithin ops v" for v
  proof (cases v)
    case (OpResult definingOp resultNumber)
    with v obtain t where t: "t \<in> set (opsOfBlocks ?body)"
      and dt: "definingOp \<in> opId ` set (allOps t)"
      by (auto simp: definedInRegion_def allOpsRegion_tops)
    from n OpResult dt have "t \<notin> set ops"
      by (auto simp: definedWithin_def)
    with kept_or_moved [OF d sub t] have "t \<in> set (opsOfBlocks ?body')" by blast
    with dt OpResult show ?thesis
      by (auto simp: definedInRegion_def allOpsRegion_tops)
  next
    case (BlockArgument owner argNumber)
    with v have "owner \<in> blockId ` set ?body
                 \<or> (\<exists>t \<in> set (opsOfBlocks ?body). owner \<in> blockId ` set (allBlocks t))"
      by (auto simp: definedInRegion_def set_allBlocksRegion)
    then show ?thesis
    proof
      assume "owner \<in> blockId ` set ?body"
      then have "owner \<in> blockId ` set ?body'"
        by (force simp: image_iff)
      with BlockArgument show ?thesis
        by (auto simp: definedInRegion_def set_allBlocksRegion)
    next
      assume "\<exists>t \<in> set (opsOfBlocks ?body). owner \<in> blockId ` set (allBlocks t)"
      then obtain t where t: "t \<in> set (opsOfBlocks ?body)"
        and dt: "owner \<in> blockId ` set (allBlocks t)" by blast
      from n BlockArgument dt have "t \<notin> set ops"
        by (auto simp: definedWithin_def)
      with kept_or_moved [OF d sub t] have "t \<in> set (opsOfBlocks ?body')" by blast
      with dt BlockArgument show ?thesis
        by (auto simp: definedInRegion_def set_allBlocksRegion)
    qed
  qed
  then show ?thesis
    by (auto simp: movedOutOfLoop_def structuredLoop_def)
qed

lemma not_hoisted_again:
  assumes ids: "distinct (map opId (opsOfBlocks (getLoopBody looplike s)))"
    and wf: "defBeforeUse [] (scanned (getLoopBody looplike s))"
    and avail: "\<forall>v. isDefinedOutsideOfLoop looplike s' v \<longrightarrow>
                  isDefinedOutsideOfLoop looplike s v \<or> definedWithin (opsToMove looplike s) v"
    and y: "y \<in> set (scanned (getLoopBody looplike s))"
    and ny: "opId y \<notin> opId ` set (opsToMove looplike s)"
  shows "\<not> canBeHoisted y (isDefinedOutsideOfBody looplike s' {})"
proof
  let ?xs = "scanned (getLoopBody looplike s)"
  assume h: "canBeHoisted y (isDefinedOutsideOfBody looplike s' {})"
  from y obtain pre post where split: "?xs = pre @ y # post"
    by (auto dest: split_list)
  define W1 where "W1 = opId ` set (selected looplike s {} pre)"
  have M: "opsToMove looplike s = selected looplike s {} pre @ selected looplike s W1 (y # post)"
    by (simp add: opsToMove_selected split selected_append W1_def)
  have rej: "\<not> canBeHoisted y (isDefinedOutsideOfBody looplike s W1)"
  proof
    assume "canBeHoisted y (isDefinedOutsideOfBody looplike s W1)"
    then have "y \<in> set (opsToMove looplike s)" by (simp add: M)
    with ny show False by blast
  qed
  from distinct_scanned [OF ids] have dx: "distinct ?xs"
    by (simp add: distinct_map)
  have "canBeHoisted y (isDefinedOutsideOfBody looplike s W1)"
  proof (rule canBeHoisted_mono [OF h])
    fix x v
    assume x: "x \<in> set (allOps y)" and v: "v \<in> set (getOperands x)"
      and p: "isDefinedOutsideOfBody looplike s' {} v"
    from x v have uv: "v \<in> set (usedValues y)"
      by (auto simp: usedValues_def)
    from p have "isDefinedOutsideOfLoop looplike s' v"
      by (simp add: isDefinedOutsideOfBody_def split: option.splits)
    with avail have "isDefinedOutsideOfLoop looplike s v \<or> definedWithin (opsToMove looplike s) v"
      by blast
    then show "isDefinedOutsideOfBody looplike s W1 v"
    proof
      assume "isDefinedOutsideOfLoop looplike s v"
      then show ?thesis by (simp add: isDefinedOutsideOfBody_def)
    next
      assume "definedWithin (opsToMove looplike s) v"
      then obtain m where m: "m \<in> set (opsToMove looplike s)" and dm: "definedWithin [m] v"
        using definedWithin_iff [of "opsToMove looplike s" v] by blast
      from m ny have "m \<noteq> y" by blast
      from m have "m \<in> set ?xs"
        using set_selected_subset [of looplike s "{}" ?xs] by (auto simp: opsToMove_selected)
      with \<open>m \<noteq> y\<close> split have mm: "m \<in> set pre \<or> m \<in> set post" by auto
      from wf uv split
      have "(\<forall>m \<in> set post. \<not> definedWithin [m] v)
          \<and> (\<forall>m \<in> set [] \<union> set pre. definedWithin [m] v \<longrightarrow> getDefiningOp v = Some (opId m))"
        by (intro defBeforeUse_split) simp_all
      with mm dm have mpre: "m \<in> set pre" and def: "getDefiningOp v = Some (opId m)"
        by auto
      have "m \<in> set (selected looplike s {} pre)"
      proof (rule ccontr)
        assume "m \<notin> set (selected looplike s {} pre)"
        with m M have "m \<in> set (selected looplike s W1 (y # post))" by auto
        then have "m \<in> set (y # post)"
          using set_selected_subset [of looplike s W1 "y # post"] by blast
        with mpre dx split show False by auto
      qed
      then have "opId m \<in> W1" by (simp add: W1_def)
      with def show ?thesis by (simp add: isDefinedOutsideOfBody_def)
    qed
  qed
  with rej show False by blast
qed

lemma scenario_first_run:
  "moveLoopInvariantCode structuredLoop scenarioLoop = (success, scenarioLoopAfter)"
  by (simp add: moveLoopInvariantCode_opsToMove scenario_opsToMove)
     (simp add: scenario_defs scenarioLoopAfter_def structuredLoop_def)

section \<open>Safety of the selection\<close>

text \<open>
  Claim C1.  Take the operation at position \<open>k\<close> of the list selected for hoisting, and
  let \<open>earlier\<close> be the addresses of the operations selected before it.  Then every
  operand of the operation is reported by the loop interface as defined outside the
  loop, or its defining operation is in \<open>earlier\<close>.  And the operation is side-effect
  free: either it is not recursively side-effecting and its memory effect
  classification states no effects (or, without a classification, it carries the
  effect-free marker); or it is recursively side-effecting, no classification states
  effects, and every non-terminator operation of every block of its regions passes
  \<^verbatim>\<open>canBeHoisted\<close> under the very predicate the operation itself was checked with.
\<close>

theorem hoisted_operands_available_and_effect_free:
  assumes "k < length (opsToMove looplike s)"
    and "op = opsToMove looplike s ! k"
    and "earlier = opId ` set (take k (opsToMove looplike s))"
  shows "(\<forall>v \<in> set (getOperands op).
            isDefinedOutsideOfLoop looplike s v
            \<or> (\<exists>definingOp \<in> earlier. getDefiningOp v = Some definingOp))
       \<and> ((\<not> hasRecursiveSideEffects op
             \<and> (case memInterface op of
                   Some iface \<Rightarrow> hasNoEffect iface
                 | None \<Rightarrow> hasNoSideEffect op))
          \<or> (hasRecursiveSideEffects op
             \<and> (case memInterface op of Some iface \<Rightarrow> hasNoEffect iface | None \<Rightarrow> True)
             \<and> (\<forall>region \<in> set (getRegions op). \<forall>block \<in> set region.
                  \<forall>innerOp \<in> set (without_terminator block).
                    canBeHoisted innerOp (isDefinedOutsideOfBody looplike s earlier))))"
proof -
  have h: "canBeHoisted op (isDefinedOutsideOfBody looplike s earlier)"
    using selected_nth [of k looplike s "{}" "scanned (getLoopBody looplike s)"] assms
    by (simp add: opsToMove_selected)
  then have ops: "list_all (isDefinedOutsideOfBody looplike s earlier) (getOperands op)"
    and test: "sideEffectTest op"
    and rec: "hasRecursiveSideEffects op \<longrightarrow>
           list_all (\<lambda>innerOp. canBeHoisted innerOp (isDefinedOutsideOfBody looplike s earlier))
             (innerOps op)"
    using canBeHoisted_unfold [of op "isDefinedOutsideOfBody looplike s earlier"] by blast+
  have 1: "\<forall>v \<in> set (getOperands op).
            isDefinedOutsideOfLoop looplike s v
            \<or> (\<exists>definingOp \<in> earlier. getDefiningOp v = Some definingOp)"
    using ops by (auto simp: list_all_iff isDefinedOutsideOfBody_def split: option.splits)
  have 2: "\<forall>region \<in> set (getRegions op). \<forall>block \<in> set region.
                  \<forall>innerOp \<in> set (without_terminator block).
                    canBeHoisted innerOp (isDefinedOutsideOfBody looplike s earlier)"
    if "hasRecursiveSideEffects op"
    using rec that by (auto simp: list_all_iff in_innerOps)
  from test have 3: "case memInterface op of Some iface \<Rightarrow> hasNoEffect iface
      | None \<Rightarrow> hasNoSideEffect op \<or> hasRecursiveSideEffects op"
    by (simp add: sideEffectTest_def)
  show ?thesis
  proof (cases "hasRecursiveSideEffects op")
    case True
    with 1 2 3 show ?thesis by (auto split: option.splits)
  next
    case False
    with 1 3 show ?thesis by (auto split: option.splits)
  qed
qed

theorem hoisted_operands_available_and_effect_free_witness:
  "1 < length (opsToMove structuredLoop scenarioLoop)
   \<and> addOp = opsToMove structuredLoop scenarioLoop ! 1
   \<and> list_all (\<lambda>v. isDefinedOutsideOfLoop structuredLoop scenarioLoop v
                    \<or> getDefiningOp v = Some (opId constOp)) (getOperands addOp)
   \<and> \<not> hasRecursiveSideEffects addOp \<and> memInterface addOp = None \<and> hasNoSideEffect addOp"
  using hoisted_operands_available_and_effect_free
          [of 1 structuredLoop scenarioLoop addOp "{opId constOp}"]
  by (simp add: scenario_opsToMove list_all_iff) (simp add: addOp_def)

section \<open>Side-effect conservatism\<close>

text \<open>
  Claim C2.  An operation whose side-effect status is unknown (the cast to the memory
  effect interface fails, it is not marked effect-free and it is not marked recursively
  side-effecting), or whose memory effect classification reports effects, is rejected by
  \<^verbatim>\<open>canBeHoisted\<close> under every availability predicate, so also when all its operands
  are available, and it is never in the list selected for hoisting, for any loop.
\<close>

theorem unknown_or_present_effects_never_hoisted:
  assumes "(memInterface op = None \<and> \<not> hasNoSideEffect op \<and> \<not> hasRecursiveSideEffects op)
           \<or> (\<exists>iface. memInterface op = Some iface \<and> \<not> hasNoEffect iface)"
  shows "\<not> canBeHoisted op definedOutside \<and> op \<notin> set (opsToMove looplike s)"
proof -
  from assms have t: "\<not> sideEffectTest op"
    by (auto simp: sideEffectTest_def)
  then have a: "\<And>P. \<not> canBeHoisted op P"
    by (rule rejected_by_side_effect_test)
  have "op \<notin> set (opsToMove looplike s)"
  proof
    assume "op \<in> set (opsToMove looplike s)"
    then obtain W' where "canBeHoisted op (isDefinedOutsideOfBody looplike s W')"
      unfolding opsToMove_selected by (auto dest: selected_hoistable)
    with a show False by blast
  qed
  with a show ?thesis by blast
qed

theorem unknown_or_present_effects_never_hoisted_witness:
  "(\<exists>iface. memInterface loadOp = Some iface \<and> \<not> hasNoEffect iface)
   \<and> list_all (\<lambda>v. True) (getOperands loadOp)
   \<and> \<not> canBeHoisted loadOp (\<lambda>v. True)
   \<and> loadOp \<notin> set (opsToMove structuredLoop scenarioLoop)
   \<and> memInterface opaqueOp = None \<and> \<not> hasNoSideEffect opaqueOp
   \<and> \<not> hasRecursiveSideEffects opaqueOp
   \<and> list_all (\<lambda>v. True) (getOperands opaqueOp)
   \<and> \<not> canBeHoisted opaqueOp (\<lambda>v. True)"
  using unknown_or_present_effects_never_hoisted
          [of loadOp "\<lambda>v. True" structuredLoop scenarioLoop]
        unknown_or_present_effects_never_hoisted
          [of opaqueOp "\<lambda>v. True" structuredLoop scenarioLoop]
  by (simp add: loadOp_def opaqueOp_def)

section \<open>Order of the hoisted operations\<close>

text \<open>
  Claim C3.  Every operation has one address and is scanned once.  Let \<open>A\<close> precede \<open>B\<close>
  among the non-terminator operations of a block of the loop body, and let both be
  selected for hoisting.  Then \<open>A\<close> precedes \<open>B\<close>, and \<open>B\<close> does not precede \<open>A\<close>, in
  the list \<^verbatim>\<open>opsToMove\<close>, which is the list \<^verbatim>\<open>moveLoopInvariantCode\<close> hands to
  \<^verbatim>\<open>moveOutOfLoop\<close>.  And after the move: whenever the move primitive has placed the
  operations of the list, in the order of the list, right before the loop
  (\<open>placedBeforeLoop\<close>), \<open>A\<close> precedes \<open>B\<close> among the operations before the loop in
  the state the procedure returns, and \<open>B\<close> does not precede \<open>A\<close> there unless \<open>B\<close>
  stood before the loop already.  The modelled loop construct places them so for every
  state and every list (\<open>structuredLoop_placedBeforeLoop\<close>).
\<close>

theorem hoisted_order_preserved:
  assumes "distinct (map opId (scanned (getLoopBody looplike s)))"
    and "block \<in> set (getLoopBody looplike s)"
    and "precedes A B (without_terminator block)"
    and "A \<in> set (opsToMove looplike s)" and "B \<in> set (opsToMove looplike s)"
  shows "precedes A B (opsToMove looplike s)
       \<and> \<not> precedes B A (opsToMove looplike s)
       \<and> moveLoopInvariantCode looplike s = moveOutOfLoop looplike (opsToMove looplike s) s
       \<and> (placedBeforeLoop before s (opsToMove looplike s) (snd (moveLoopInvariantCode looplike s))
            \<longrightarrow> precedes A B (before (snd (moveLoopInvariantCode looplike s)))
               \<and> (B \<notin> set (before s)
                    \<longrightarrow> \<not> precedes B A (before (snd (moveLoopInvariantCode looplike s)))))"
proof -
  from assms(1) have d: "distinct (scanned (getLoopBody looplike s))"
    by (simp add: distinct_map)
  have sub: "subseq (opsToMove looplike s) (scanned (getLoopBody looplike s))"
    by (simp add: opsToMove_selected subseq_selected)
  from d assms(2,3) have "precedes A B (scanned (getLoopBody looplike s))"
    by (rule precedes_scanned)
  then have p: "precedes A B (opsToMove looplike s)"
    using precedes_subseq [OF sub d _ assms(4,5)] by blast
  from d have "distinct (opsToMove looplike s)"
    by (simp add: opsToMove_selected distinct_selected)
  with p have np: "\<not> precedes B A (opsToMove looplike s)"
    by (auto dest: precedes_asym)
  have after: "precedes A B (before s') \<and> (B \<notin> set (before s) \<longrightarrow> \<not> precedes B A (before s'))"
    if "placedBeforeLoop before s (opsToMove looplike s) s'" for s'
  proof -
    from that have eq: "before s' = before s @ opsToMove looplike s"
      by (simp add: placedBeforeLoop_def)
    from p have 1: "precedes A B (before s')"
      unfolding eq by (rule precedes_append_any)
    from np have 2: "\<not> precedes B A (before s')" if "B \<notin> set (before s)"
      unfolding eq using that by (simp add: precedes_append_fresh)
    from 1 2 show ?thesis by blast
  qed
  from p np after show ?thesis
    by (simp add: moveLoopInvariantCode_opsToMove)
qed

theorem hoisted_order_preserved_witness:
  "distinct (map opId (scanned (getLoopBody structuredLoop scenarioLoop)))
   \<and> Block 10 [constOp, addOp, loadOp, yieldOp] \<in> set (getLoopBody structuredLoop scenarioLoop)
   \<and> precedes constOp addOp (without_terminator (Block 10 [constOp, addOp, loadOp, yieldOp]))
   \<and> constOp \<in> set (opsToMove structuredLoop scenarioLoop)
   \<and> addOp \<in> set (opsToMove structuredLoop scenarioLoop)
   \<and> placedBeforeLoop beforeLoop scenarioLoop (opsToMove structuredLoop scenarioLoop)
         (snd (moveLoopInvariantCode structuredLoop scenarioLoop))
   \<and> addOp \<notin> set (beforeLoop scenarioLoop)
   \<and> precedes constOp addOp (opsToMove structuredLoop scenarioLoop)
   \<and> \<not> precedes addOp constOp (opsToMove structuredLoop scenarioLoop)
   \<and> precedes constOp addOp (beforeLoop (snd (moveLoopInvariantCode structuredLoop scenarioLoop)))
   \<and> \<not> precedes addOp constOp (beforeLoop (snd (moveLoopInvariantCode structuredLoop scenarioLoop)))"
proof -
  have placed: "placedBeforeLoop beforeLoop scenarioLoop (opsToMove structuredLoop scenarioLoop)
         (snd (moveLoopInvariantCode structuredLoop scenarioLoop))"
    unfolding moveLoopInvariantCode_opsToMove by (rule structuredLoop_placedBeforeLoop)
  have fresh: "addOp \<notin> set (beforeLoop scenarioLoop)"
    by (simp add: scenarioLoop_def)
  have hyps: "distinct (map opId (scanned (getLoopBody structuredLoop scenarioLoop)))"
    "Block 10 [constOp, addOp, loadOp, yieldOp] \<in> set (getLoopBody structuredLoop scenarioLoop)"
    "precedes constOp addOp (without_terminator (Block 10 [constOp, addOp, loadOp, yieldOp]))"
    by (simp_all add: scenario_defs scanned_def without_terminator_def structuredLoop_def)
  have sel: "constOp \<in> set (opsToMove structuredLoop scenarioLoop)"
    "addOp \<in> set (opsToMove structuredLoop scenarioLoop)"
    by (simp_all add: scenario_opsToMove)
  from hoisted_order_preserved [OF hyps sel, of beforeLoop] placed fresh hyps sel
  show ?thesis by (simp add: moveLoopInvariantCode_opsToMove)
qed

section \<open>A second run\<close>

text \<open>
  Claim C4, as stated, fails: a second run may select operations.  In
  \<open>multiBlockLoop\<close> the scan meets the use in block 21 before the definition in block
  22; the first run moves the definition only, and the second run then moves the use.
\<close>

theorem second_run_selects_more_counterexample:
  "moveLoopInvariantCode structuredLoop multiBlockLoop = (success, multiBlockLoopAfter)
   \<and> opsToMove structuredLoop multiBlockLoopAfter = [useOp]"
  by (simp add: multiBlockLoop_def multiBlockLoopAfter_def useOp_def defOp_def branchOp_def
        moveLoopInvariantCode_opsToMove eval_simps)

text \<open>
  Claim C4, amended.  Let every operation of the immediate blocks of the loop body have
  its own address, and let the scan order respect definitions (\<open>defBeforeUse\<close>): a
  value consumed by a scanned operation, or inside it, is not defined within a later
  scanned operation, and if it is defined within an earlier one it is a result of that
  operation.  Let the first run succeed and leave a state \<open>s'\<close> in which the selected
  operations have been moved out of the loop (\<open>movedOutOfLoop\<close>).  Then a second run
  selects nothing: no scanned operation passes \<^verbatim>\<open>canBeHoisted\<close>, and the move
  primitive is called on the empty list.
\<close>

theorem second_run_selects_nothing:
  assumes ids: "distinct (map opId (opsOfBlocks (getLoopBody looplike s)))"
    and wf: "defBeforeUse [] (scanned (getLoopBody looplike s))"
    and run: "moveLoopInvariantCode looplike s = (success, s')"
    and moved: "movedOutOfLoop looplike s (opsToMove looplike s) s'"
  shows "opsToMove looplike s' = []
       \<and> (\<forall>op \<in> set (scanned (getLoopBody looplike s')).
             \<not> canBeHoisted op (isDefinedOutsideOfBody looplike s' {}))
       \<and> moveLoopInvariantCode looplike s' = moveOutOfLoop looplike [] s'"
proof -
  let ?xs = "scanned (getLoopBody looplike s)"
  from moved have body: "getLoopBody looplike s'
        = map (removeOps (opsToMove looplike s)) (getLoopBody looplike s)"
    and avail: "\<forall>v. isDefinedOutsideOfLoop looplike s' v \<longrightarrow>
                  isDefinedOutsideOfLoop looplike s v \<or> definedWithin (opsToMove looplike s) v"
    by (simp_all add: movedOutOfLoop_def)
  have "set (opsToMove looplike s) \<subseteq> set ?xs"
    by (simp add: opsToMove_selected set_selected_subset)
  from scanned_removeOps [OF ids this] body
  have xs': "scanned (getLoopBody looplike s')
               = filter (\<lambda>op. opId op \<notin> opId ` set (opsToMove looplike s)) ?xs"
    by simp
  have rem: "\<not> canBeHoisted op (isDefinedOutsideOfBody looplike s' {})"
    if "op \<in> set (scanned (getLoopBody looplike s'))" for op
    using that not_hoisted_again [OF ids wf avail, of op] by (simp add: xs')
  then have "selected looplike s' {} (scanned (getLoopBody looplike s')) = []"
    by (rule selected_none)
  then have 1: "opsToMove looplike s' = []"
    by (simp add: opsToMove_selected)
  from 1 rem show ?thesis
    by (simp add: moveLoopInvariantCode_opsToMove)
qed

theorem second_run_selects_nothing_witness:
  "distinct (map opId (opsOfBlocks (getLoopBody structuredLoop scenarioLoop)))
   \<and> defBeforeUse [] (scanned (getLoopBody structuredLoop scenarioLoop))
   \<and> moveLoopInvariantCode structuredLoop scenarioLoop = (success, scenarioLoopAfter)
   \<and> movedOutOfLoop structuredLoop scenarioLoop (opsToMove structuredLoop scenarioLoop)
         scenarioLoopAfter
   \<and> opsToMove structuredLoop scenarioLoopAfter = []
   \<and> \<not> canBeHoisted loadOp (isDefinedOutsideOfBody structuredLoop scenarioLoopAfter {})
   \<and> moveLoopInvariantCode structuredLoop scenarioLoopAfter = (success, scenarioLoopAfter)"
proof -
  have ids: "distinct (map opId (opsOfBlocks (getLoopBody structuredLoop scenarioLoop)))"
    by (simp add: scenario_defs structuredLoop_def)
  have wf: "defBeforeUse [] (scanned (getLoopBody structuredLoop scenarioLoop))"
    by (simp add: scenario_defs structuredLoop_def scanned_def without_terminator_def
          usedValues_def definedWithin_def)
  have after: "snd (moveOutOfLoop structuredLoop [constOp, addOp] scenarioLoop) = scenarioLoopAfter"
    by (simp add: scenario_defs scenarioLoopAfter_def structuredLoop_def)
  have "movedOutOfLoop structuredLoop scenarioLoop [constOp, addOp]
          (snd (moveOutOfLoop structuredLoop [constOp, addOp] scenarioLoop))"
    by (rule structuredLoop_movedOutOfLoop) (simp_all add: scenario_defs)
  then have moved: "movedOutOfLoop structuredLoop scenarioLoop
      (opsToMove structuredLoop scenarioLoop) scenarioLoopAfter"
    by (simp only: after scenario_opsToMove)
  from second_run_selects_nothing [OF ids wf scenario_first_run moved] ids wf scenario_first_run moved
  show ?thesis
    by (simp add: scenarioLoopAfter_def structuredLoop_def scanned_def without_terminator_def)
qed

section \<open>Precedence of the memory effect classification\<close>

text \<open>
  Claim C5.  When the cast to the memory effect interface succeeds, the side-effect test
  is passed exactly when the classification states no effects: the result of
  \<^verbatim>\<open>canBeHoisted\<close> is the operand check, \<^verbatim>\<open>hasNoEffect()\<close> and, for an operation
  with the recursive trait (read again at line 58, after the test), the check of the
  nested operations.  \<^verbatim>\<open>hasNoSideEffect()\<close> plays no part in it: changing the marker
  does not change the result.  Only when the cast fails do the two markers decide the
  test: one of them must be present.
\<close>

theorem memory_effect_classification_decides_first:
  "(memInterface op = Some iface \<longrightarrow>
      canBeHoisted op definedOutside =
        (list_all definedOutside (getOperands op) \<and> hasNoEffect iface \<and>
         (hasRecursiveSideEffects op \<longrightarrow>
            (\<forall>innerOp \<in> set (innerOps op). canBeHoisted innerOp definedOutside))))
   \<and> (memInterface op = None \<longrightarrow>
      canBeHoisted op definedOutside =
        (list_all definedOutside (getOperands op) \<and>
         (hasNoSideEffect op \<or> hasRecursiveSideEffects op) \<and>
         (hasRecursiveSideEffects op \<longrightarrow>
            (\<forall>innerOp \<in> set (innerOps op). canBeHoisted innerOp definedOutside))))
   \<and> canBeHoisted (Op i operands (Some iface) nse rse regions) definedOutside
       = canBeHoisted (Op i operands (Some iface) nse' rse regions) definedOutside"
proof -
  have "canBeHoisted (Op i operands (Some iface) nse rse regions) definedOutside
       = canBeHoisted (Op i operands (Some iface) nse' rse regions) definedOutside"
    by (simp add: canBeHoisted_Op sideEffectTest_def innerOps_def)
  then show ?thesis
    using canBeHoisted_unfold [of op definedOutside]
    by (auto simp: sideEffectTest_def list_all_iff)
qed

theorem memory_effect_classification_decides_first_witness:
  "memInterface contradictoryOp = Some (MemoryEffectOpInterface False)
   \<and> hasNoSideEffect contradictoryOp
   \<and> \<not> canBeHoisted contradictoryOp (\<lambda>v. True)"
  using memory_effect_classification_decides_first
          [of contradictoryOp "MemoryEffectOpInterface False" "\<lambda>v. True"]
  by (simp add: contradictoryOp_def)

section \<open>Operations inside nested regions\<close>

text \<open>
  Claim C6.  The scan selects only operations it iterates over: non-terminator
  operations of the immediate blocks of the loop body.  With one address per operation,
  an operation \<open>inner\<close> that lies inside the regions of an operation \<open>outerOp\<close> of the
  loop body (a nested loop, for instance) is never selected and its address never
  enters \<^verbatim>\<open>willBeMovedSet\<close>.  The outer operation itself is a candidate like any
  other: when it is selected, it passed \<^verbatim>\<open>canBeHoisted\<close> under the scanner's
  predicate.
\<close>

theorem nested_operations_never_selected:
  assumes "distinct (map opId (allOpsRegion (getLoopBody looplike s)))"
    and "block \<in> set (getLoopBody looplike s)"
    and "outerOp \<in> set (getOperations block)"
    and "inner \<in> set (nestedOps outerOp)"
  shows "set (opsToMove looplike s) \<subseteq> set (scanned (getLoopBody looplike s))
       \<and> inner \<notin> set (opsToMove looplike s)
       \<and> opId inner \<notin> willBeMovedSet looplike s
       \<and> (outerOp \<in> set (opsToMove looplike s) \<longrightarrow>
            (\<exists>W \<subseteq> opId ` set (scanned (getLoopBody looplike s)).
               canBeHoisted outerOp (isDefinedOutsideOfBody looplike s W)))"
proof -
  let ?body = "getLoopBody looplike s"
  have sel: "set (opsToMove looplike s) \<subseteq> set (scanned ?body)"
    by (simp add: opsToMove_selected set_selected_subset)
  from assms(2,3) have tp: "outerOp \<in> set (opsOfBlocks ?body)"
    by (auto simp: opsOfBlocks_def)
  from assms(1) have "distinct (map opId (concat (map allOps (opsOfBlocks ?body))))"
    by (simp add: allOpsRegion_tops)
  from nested_not_among_tops [OF this allOps_nestedOps tp assms(4)]
  have "opId inner \<notin> opId ` set (opsOfBlocks ?body)" .
  with sel scanned_subset_tops [of ?body]
  have id: "opId inner \<notin> opId ` set (opsToMove looplike s)" by blast
  then have mem: "inner \<notin> set (opsToMove looplike s)" by blast
  have "\<exists>W \<subseteq> opId ` set (scanned ?body). canBeHoisted outerOp (isDefinedOutsideOfBody looplike s W)"
    if "outerOp \<in> set (opsToMove looplike s)"
    using that selected_hoistable_bounded [of outerOp looplike s "{}" "scanned ?body"]
    by (simp add: opsToMove_selected)
  with sel id mem show ?thesis
    by (simp add: willBeMovedSet_opsToMove)
qed

theorem nested_operations_never_selected_witness:
  "distinct (map opId (allOpsRegion (getLoopBody structuredLoop regionLoop)))
   \<and> Block 10 [constOp, ifOp, yieldOp] \<in> set (getLoopBody structuredLoop regionLoop)
   \<and> ifOp \<in> set (getOperations (Block 10 [constOp, ifOp, yieldOp]))
   \<and> innerDef \<in> set (nestedOps ifOp)
   \<and> canBeHoisted innerDef (isDefinedOutsideOfBody structuredLoop regionLoop {})
   \<and> innerDef \<notin> set (opsToMove structuredLoop regionLoop)
   \<and> opId innerDef \<notin> willBeMovedSet structuredLoop regionLoop"
  using nested_operations_never_selected
      [of structuredLoop regionLoop "Block 10 [constOp, ifOp, yieldOp]" ifOp innerDef]
  by (simp add: scenario_defs structuredLoop_def allOpsRegion_def nestedOps_def
        canBeHoisted_Op sideEffectTest_def)

section \<open>Failure of the move\<close>

text \<open>
  Claim C7.  \<^verbatim>\<open>moveLoopInvariantCode\<close> fails exactly when the call of
  \<^verbatim>\<open>moveOutOfLoop\<close> on the selected list fails; the IR it leaves is the IR that call
  returned; and the recorded call shows the state the primitive was invoked on: the
  state \<open>s\<close> the procedure was entered with, so nothing was changed before the call.
\<close>

theorem move_failure_is_the_primitives:
  "failed (fst (moveLoopInvariantCode looplike s))
     = failed (fst (moveOutOfLoop looplike (opsToMove looplike s) s))
   \<and> snd (moveLoopInvariantCode looplike s)
     = snd (moveOutOfLoop looplike (opsToMove looplike s) s)
   \<and> map fst (snd (snd (moveLoopInvariantCode (recording looplike) (s, [])))) = [s]"
  by (simp add: moveLoopInvariantCode_recording) (simp add: moveLoopInvariantCode_opsToMove)

theorem move_failure_is_the_primitives_witness:
  "failed (fst (moveLoopInvariantCode refusingLoop scenarioLoop))
   \<and> snd (moveLoopInvariantCode refusingLoop scenarioLoop) = scenarioLoop
   \<and> map fst (snd (snd (moveLoopInvariantCode (recording refusingLoop) (scenarioLoop, []))))
        = [scenarioLoop]"
  using move_failure_is_the_primitives [of refusingLoop scenarioLoop]
  by (simp add: refusingLoop_def)

section \<open>Terminators\<close>

text \<open>
  Claim C8.  Every operation has one address.  Take any block of the loop body or of a
  region nested in it at any depth, and its terminator, the last operation of the
  block.  During the scan of the loop \<^verbatim>\<open>canBeHoisted\<close> is never invoked on the
  terminator, neither by the scanner nor by a recursive call of the analyzer, and the
  terminator is not in the list selected for hoisting.
\<close>

theorem terminators_never_analyzed_nor_hoisted:
  assumes "distinct (map opId (allOpsRegion (getLoopBody looplike s)))"
    and "block \<in> set (allBlocksRegion (getLoopBody looplike s))"
    and "getOperations block \<noteq> []"
  shows "last (getOperations block) \<notin> set (analyzedByScan looplike s)
       \<and> last (getOperations block) \<notin> set (opsToMove looplike s)"
proof -
  let ?body = "getLoopBody looplike s"
  let ?t = "last (getOperations block)"
  from terminator_not_scanned [OF assms]
  have t: "?t \<notin> set (scanned (allBlocksRegion ?body))" by blast
  have "set (analyzedByScan looplike s) \<subseteq> set (scanned (allBlocksRegion ?body))"
    unfolding analyzedByScan_def by (rule scanCalls_subset) simp
  with t have 1: "?t \<notin> set (analyzedByScan looplike s)" by blast
  have "set (opsToMove looplike s) \<subseteq> set (scanned ?body)"
    by (simp add: opsToMove_selected set_selected_subset)
  with scanned_reach(1) [of _ ?body] t have 2: "?t \<notin> set (opsToMove looplike s)" by blast
  from 1 2 show ?thesis by blast
qed

theorem terminators_never_analyzed_nor_hoisted_witness:
  "distinct (map opId (allOpsRegion (getLoopBody structuredLoop regionLoop)))
   \<and> Block 11 [innerDef, innerUse, innerYield]
         \<in> set (allBlocksRegion (getLoopBody structuredLoop regionLoop))
   \<and> Block 10 [constOp, ifOp, yieldOp]
         \<in> set (allBlocksRegion (getLoopBody structuredLoop regionLoop))
   \<and> analyzedByScan structuredLoop regionLoop = [constOp, ifOp, innerDef, innerUse]
   \<and> innerYield \<notin> set (analyzedByScan structuredLoop regionLoop)
   \<and> yieldOp \<notin> set (analyzedByScan structuredLoop regionLoop)
   \<and> innerYield \<notin> set (opsToMove structuredLoop regionLoop)
   \<and> yieldOp \<notin> set (opsToMove structuredLoop regionLoop)"
  using terminators_never_analyzed_nor_hoisted
      [of structuredLoop regionLoop "Block 11 [innerDef, innerUse, innerYield]"]
    terminators_never_analyzed_nor_hoisted
      [of structuredLoop regionLoop "Block 10 [constOp, ifOp, yieldOp]"]
  by (simp add: regionLoop_analyzed)
     (simp add: scenario_defs structuredLoop_def allOpsRegion_def allBlocksRegion_def)

section \<open>Values defined inside the regions of an operation\<close>

text \<open>
  Claim C9.  Let \<open>op\<close> be recursively side-effecting and let a non-terminator operation
  of a block of one of its regions consume a value \<open>v\<close>.  If the availability predicate
  does not hold of \<open>v\<close>, the analyzer rejects \<open>op\<close>: the nested operation is checked
  with the predicate of the outer call.  In the scan of a loop, \<^verbatim>\<open>willBeMovedSet\<close>
  only ever holds addresses of operations scanned in the blocks of the loop body; so if
  the loop interface does not report \<open>v\<close> as defined outside the loop and \<open>v\<close> is not
  the result of a scanned operation, then \<open>op\<close> is not selected.  And a value defined
  inside the regions of \<open>op\<close>, by an operation there or as an argument of a block
  there, is never the result of a scanned operation, every operation having one address.
\<close>

theorem inner_use_of_unavailable_value_rejects:
  assumes "hasRecursiveSideEffects op"
    and "region \<in> set (getRegions op)" and "block \<in> set region"
    and "innerOp \<in> set (without_terminator block)"
    and "v \<in> set (getOperands innerOp)"
  shows "(\<not> definedOutside v \<longrightarrow> \<not> canBeHoisted op definedOutside)
       \<and> (\<not> isDefinedOutsideOfLoop looplike s v
            \<and> getDefiningOp v \<notin> Some ` opId ` set (scanned (getLoopBody looplike s))
          \<longrightarrow> op \<notin> set (opsToMove looplike s))
       \<and> (definedInRegionsOf op v
            \<and> distinct (map opId (allOpsRegion (getLoopBody looplike s)))
            \<and> op \<in> set (opsOfBlocks (getLoopBody looplike s))
          \<longrightarrow> getDefiningOp v \<notin> Some ` opId ` set (scanned (getLoopBody looplike s)))"
proof -
  from assms(2-4) have inner: "innerOp \<in> set (innerOps op)"
    by (auto simp: in_innerOps)
  have a: "\<not> definedOutside v \<longrightarrow> \<not> canBeHoisted op definedOutside"
    using rejected_by_inner_operand [OF assms(1) inner assms(5)] by blast
  have b: "op \<notin> set (opsToMove looplike s)"
    if out: "\<not> isDefinedOutsideOfLoop looplike s v"
      and def: "getDefiningOp v \<notin> Some ` opId ` set (scanned (getLoopBody looplike s))"
  proof
    assume "op \<in> set (opsToMove looplike s)"
    then obtain W' where W': "W' \<subseteq> opId ` set (scanned (getLoopBody looplike s))"
      and h: "canBeHoisted op (isDefinedOutsideOfBody looplike s W')"
      unfolding opsToMove_selected by (auto dest: selected_hoistable_bounded)
    from out def W' have "\<not> isDefinedOutsideOfBody looplike s W' v"
      by (auto simp: isDefinedOutsideOfBody_def split: option.splits)
    with rejected_by_inner_operand [OF assms(1) inner assms(5)] h show False by blast
  qed
  have c: "getDefiningOp v \<notin> Some ` opId ` set (scanned (getLoopBody looplike s))"
    if inside: "definedInRegionsOf op v"
      and ids: "distinct (map opId (allOpsRegion (getLoopBody looplike s)))"
      and top: "op \<in> set (opsOfBlocks (getLoopBody looplike s))"
  proof (cases v)
    case (BlockArgument owner argNumber)
    then show ?thesis by auto
  next
    case (OpResult definingOp resultNumber)
    with inside obtain z where z: "z \<in> set (nestedOps op)" and dz: "definingOp = opId z"
      by (auto simp: definedInRegionsOf_def)
    from ids have "distinct (map opId (concat (map allOps (opsOfBlocks (getLoopBody looplike s)))))"
      by (simp add: allOpsRegion_tops)
    from nested_not_among_tops [OF this allOps_nestedOps top z]
    have "opId z \<notin> opId ` set (opsOfBlocks (getLoopBody looplike s))" .
    with scanned_subset_tops [of "getLoopBody looplike s"] OpResult dz
    show ?thesis by auto
  qed
  from a b c show ?thesis by blast
qed

theorem inner_use_of_unavailable_value_rejects_witness:
  "hasRecursiveSideEffects ifOp
   \<and> innerUse \<in> set (without_terminator (Block 11 [innerDef, innerUse, innerYield]))
   \<and> OpResult 6 0 \<in> set (getOperands innerUse)
   \<and> definedInRegionsOf ifOp (OpResult 6 0)
   \<and> \<not> isDefinedOutsideOfLoop structuredLoop regionLoop (OpResult 6 0)
   \<and> \<not> canBeHoisted ifOp (isDefinedOutsideOfLoop structuredLoop regionLoop)
   \<and> ifOp \<notin> set (opsToMove structuredLoop regionLoop)"
  using inner_use_of_unavailable_value_rejects
          [of ifOp "[Block 11 [innerDef, innerUse, innerYield]]"
              "Block 11 [innerDef, innerUse, innerYield]" innerUse "OpResult 6 0"
              "isDefinedOutsideOfLoop structuredLoop regionLoop" structuredLoop regionLoop]
  by (simp add: scenario_defs scanned_def without_terminator_def structuredLoop_def
        definedInRegion_def allOpsRegion_def definedInRegionsOf_def nestedOps_def opsOfBlocks_def)

section \<open>The call of the move primitive\<close>

text \<open>
  Claim C10.  On the recording interface, one run of \<^verbatim>\<open>moveLoopInvariantCode\<close>
  appends exactly one call to the record, whatever was selected: the call on the list
  \<^verbatim>\<open>opsToMove\<close>, which is the empty list when nothing was selected.  The result and
  the IR returned are those of that call.  Run by \<^verbatim>\<open>runOnOperation\<close> over a list of
  loops, the pass makes as many calls as there are loops.
\<close>

theorem move_primitive_invoked_exactly_once:
  "(case moveLoopInvariantCode (recording looplike) (s, calls) of
      (result, s', calls') \<Rightarrow>
        calls' = calls @ [(s, opsToMove looplike s)]
        \<and> (opsToMove looplike s = [] \<longrightarrow> map snd calls' = map snd calls @ [[]])
        \<and> (result, s') = moveOutOfLoop looplike (opsToMove looplike s) s)
   \<and> length (snd (fst (runOnOperation (map recording loops) ((s, calls), passFailed))))
       = length calls + length loops"
  by (simp add: moveLoopInvariantCode_recording runOnOperation_recording_calls)

theorem move_primitive_invoked_exactly_once_witness:
  "snd (snd (moveLoopInvariantCode (recording structuredLoop) (emptyLoop, []))) = [(emptyLoop, [])]
   \<and> length (snd (fst (runOnOperation (map recording [structuredLoop, refusingLoop])
                          ((emptyLoop, []), False)))) = 2"
  using move_primitive_invoked_exactly_once
          [where looplike = structuredLoop and s = emptyLoop and calls = "[]"
                and loops = "[structuredLoop, refusingLoop]" and passFailed = False]
  by (simp add: emptyLoop_opsToMove split_def)

end
